theory Spec2Isabelle
  imports Main "HOL-Library.Sublist"
begin

section \<open>Text and character classes\<close>

text \<open>
  The converter is a chain of regular-expression rewrites over the text that the external
  renderer (quicktype) returns. Text is a list of characters; a character is one of the
  first 256 UTF-16 code units. The classes below are the ECMAScript classes restricted to
  that range: \<open>\s\<close> is white space and line terminators, \<open>\w\<close> is
  \<open>[A-Za-z0-9_]\<close>, \<open>.\<close> excludes the line terminators.
\<close>

definition isSpace :: "char \<Rightarrow> bool" where
  "isSpace ch = (ch = CHR 0x09 \<or> ch = CHR 0x0A \<or> ch = CHR 0x0B \<or> ch = CHR 0x0C
     \<or> ch = CHR 0x0D \<or> ch = CHR 0x20 \<or> ch = CHR 0xA0)"

definition isLineTerminator :: "char \<Rightarrow> bool" where
  "isLineTerminator ch = (ch = CHR 0x0A \<or> ch = CHR 0x0D)"

definition isWord :: "char \<Rightarrow> bool" where
  "isWord ch = (let n = (of_char ch :: nat) in
     (48 \<le> n \<and> n \<le> 57) \<or> (65 \<le> n \<and> n \<le> 90) \<or> n = 95 \<or> (97 \<le> n \<and> n \<le> 122))"

datatype cclass = Space | NonSpace | Word | Blank | AnyChar | NotQuote | NotSemi | Dot

fun in_class :: "cclass \<Rightarrow> char \<Rightarrow> bool" where
  "in_class Space ch = isSpace ch"
| "in_class NonSpace ch = (\<not> isSpace ch)"
| "in_class Word ch = isWord ch"
| "in_class Blank ch = (ch = CHR 0x20 \<or> ch = CHR 0x09)"
| "in_class AnyChar ch = True"
| "in_class NotQuote ch = (ch \<noteq> CHR 0x22)"
| "in_class NotSemi ch = (ch \<noteq> CHR 0x3B)"
| "in_class Dot ch = (\<not> isLineTerminator ch)"

text \<open>\<open>String.prototype.toLowerCase\<close> on the 256 characters of the model.\<close>

definition lowerChar :: "char \<Rightarrow> char" where
  "lowerChar ch = (let n = (of_char ch :: nat) in
     if (65 \<le> n \<and> n \<le> 90) \<or> (192 \<le> n \<and> n \<le> 222 \<and> n \<noteq> 215)
     then char_of (n + 32) else ch)"

definition toLowerCase :: "string \<Rightarrow> string" where
  "toLowerCase s = map lowerChar s"

definition endsWith :: "string \<Rightarrow> string \<Rightarrow> bool" where
  "endsWith s suf = (length suf \<le> length s \<and> drop (length s - length suf) s = suf)"

definition startsWith :: "string \<Rightarrow> string \<Rightarrow> bool" where
  "startsWith s pre = (take (length pre) s = pre)"

definition trim :: "string \<Rightarrow> string" where
  "trim s = rev (dropWhile isSpace (rev (dropWhile isSpace s)))"

fun join :: "string \<Rightarrow> string list \<Rightarrow> string" where
  "join sep [] = []"
| "join sep [x] = x"
| "join sep (x # y # ys) = x @ sep @ join sep (y # ys)"

section \<open>Regular expressions with backtracking\<close>

text \<open>
  The regular expressions of \<open>converter.ts\<close> use literals, greedy and lazy
  repetition of a character class, ordered alternation, a greedy optional group,
  capturing groups, \<open>^\<close> under the \<open>m\<close> flag and \<open>\b\<close>. The matcher
  is the ECMAScript one: it matches the first item against the text and hands the rest
  to the continuation, and the first successful path in priority order wins.
\<close>

datatype rx =
    Lit string
  | Star cclass
  | Plus cclass
  | LazyStar cclass
  | Alt rx rx
  | Opt rx
  | Cat rx rx
  | Group nat rx
  | Bol
  | WordB

fun seq :: "rx list \<Rightarrow> rx" where
  "seq [] = Lit []"
| "seq [r] = r"
| "seq (r # rs) = Cat r (seq rs)"

type_synonym caps = "nat \<Rightarrow> string option"

datatype item = Rx rx | EndGroup nat string

fun rsize :: "rx \<Rightarrow> nat" where
  "rsize (Lit w) = 1"
| "rsize (Star cl) = 1"
| "rsize (Plus cl) = 2"
| "rsize (LazyStar cl) = 1"
| "rsize (Alt a b) = rsize a + rsize b + 1"
| "rsize (Opt a) = rsize a + 1"
| "rsize (Cat a b) = rsize a + rsize b + 1"
| "rsize (Group n a) = rsize a + 1"
| "rsize Bol = 1"
| "rsize WordB = 1"

fun iweight :: "item \<Rightarrow> nat" where
  "iweight (Rx r) = 2 * rsize r"
| "iweight (EndGroup n s0) = 1"

definition atLineStart :: "char option \<Rightarrow> bool" where
  "atLineStart p = (case p of None \<Rightarrow> True | Some ch \<Rightarrow> isLineTerminator ch)"

definition atWordBoundary :: "char option \<Rightarrow> string \<Rightarrow> bool" where
  "atWordBoundary p s =
     ((case p of None \<Rightarrow> False | Some ch \<Rightarrow> isWord ch)
      \<noteq> (case s of [] \<Rightarrow> False | ch # _ \<Rightarrow> isWord ch))"

text \<open>
  \<open>matcher k s p c\<close>: the items \<open>k\<close> against the text \<open>s\<close>, where \<open>p\<close> is the
  character before \<open>s\<close> (none at the start of the input) and \<open>c\<close> the captures so
  far. The result is the captures and the text left after the match.
\<close>

function (sequential) matcher ::
  "item list \<Rightarrow> string \<Rightarrow> char option \<Rightarrow> caps \<Rightarrow> (caps \<times> string) option" where
  "matcher [] s p c = Some (c, s)"
| "matcher (EndGroup n s0 # k) s p c =
     matcher k s p (c(n \<mapsto> take (length s0 - length s) s0))"
| "matcher (Rx (Lit []) # k) s p c = matcher k s p c"
| "matcher (Rx (Lit (x # w)) # k) [] p c = None"
| "matcher (Rx (Lit (x # w)) # k) (y # s) p c =
     (if x = y then matcher (Rx (Lit w) # k) s (Some y) c else None)"
| "matcher (Rx (Star cl) # k) [] p c = matcher k [] p c"
| "matcher (Rx (Star cl) # k) (y # s) p c =
     (if in_class cl y
      then (case matcher (Rx (Star cl) # k) s (Some y) c of
              Some r \<Rightarrow> Some r
            | None \<Rightarrow> matcher k (y # s) p c)
      else matcher k (y # s) p c)"
| "matcher (Rx (Plus cl) # k) [] p c = None"
| "matcher (Rx (Plus cl) # k) (y # s) p c =
     (if in_class cl y then matcher (Rx (Star cl) # k) s (Some y) c else None)"
| "matcher (Rx (LazyStar cl) # k) [] p c = matcher k [] p c"
| "matcher (Rx (LazyStar cl) # k) (y # s) p c =
     (case matcher k (y # s) p c of
        Some r \<Rightarrow> Some r
      | None \<Rightarrow> (if in_class cl y then matcher (Rx (LazyStar cl) # k) s (Some y) c else None))"
| "matcher (Rx (Alt a b) # k) s p c =
     (case matcher (Rx a # k) s p c of
        Some r \<Rightarrow> Some r
      | None \<Rightarrow> matcher (Rx b # k) s p c)"
| "matcher (Rx (Opt a) # k) s p c =
     (case matcher (Rx a # k) s p c of
        Some r \<Rightarrow> Some r
      | None \<Rightarrow> matcher k s p c)"
| "matcher (Rx (Cat a b) # k) s p c = matcher (Rx a # Rx b # k) s p c"
| "matcher (Rx (Group n a) # k) s p c = matcher (Rx a # EndGroup n s # k) s p c"
| "matcher (Rx Bol # k) s p c = (if atLineStart p then matcher k s p c else None)"
| "matcher (Rx WordB # k) s p c = (if atWordBoundary p s then matcher k s p c else None)"
  by pat_completeness auto
termination
  by (relation "measures [\<lambda>(k, s, p, c). length s, \<lambda>(k, s, p, c). sum_list (map iweight k)]")
     auto

text \<open>
  \<open>RegExp.prototype.exec\<close> from a position: the leftmost start at which the
  expression matches. The result is the index of the match relative to the position,
  its length and its captures.
\<close>

fun rx_exec :: "rx \<Rightarrow> char option \<Rightarrow> string \<Rightarrow> (nat \<times> nat \<times> caps) option" where
  "rx_exec r p [] =
     (case matcher [Rx r] [] p Map.empty of
        Some (c, rest) \<Rightarrow> Some (0, 0, c)
      | None \<Rightarrow> None)"
| "rx_exec r p (x # xs) =
     (case matcher [Rx r] (x # xs) p Map.empty of
        Some (c, rest) \<Rightarrow> Some (0, length (x # xs) - length rest, c)
      | None \<Rightarrow>
          (case rx_exec r (Some x) xs of
             None \<Rightarrow> None
           | Some (i, n, c) \<Rightarrow> Some (Suc i, n, c)))"

text \<open>
  A global scan cuts the text into the matches (\<open>Hit\<close>, with the captures) and the text
  between them (\<open>Gap\<close>). After an empty match the scan moves on by one character, as
  \<open>lastIndex\<close> does.
\<close>

datatype seg = Gap string | Hit string caps

function segments :: "rx \<Rightarrow> char option \<Rightarrow> string \<Rightarrow> seg list" where
  "segments r p [] =
     (case rx_exec r p [] of
        None \<Rightarrow> [Gap []]
      | Some (i, n, c) \<Rightarrow> [Hit [] c])"
| "segments r p (x # xs) =
     (case rx_exec r p (x # xs) of
        None \<Rightarrow> [Gap (x # xs)]
      | Some (i, n, c) \<Rightarrow>
          Gap (take i (x # xs)) # Hit (take n (drop i (x # xs))) c #
          (if n = 0
           then (case drop i (x # xs) of
                   [] \<Rightarrow> []
                 | y # ys \<Rightarrow> Gap [y] # segments r (Some y) ys)
           else segments r (Some (last (take n (drop i (x # xs))))) (drop (i + n) (x # xs))))"
  by pat_completeness auto
termination
proof (relation "measure (\<lambda>(r, p, s). length s)")
  show "wf (measure (\<lambda>(r, p, s). length s))"
    by simp
next
  fix r :: rx and p :: "char option" and x :: char and xs ys :: string
    and i :: nat and y :: char
  assume "drop i (x # xs) = y # ys"
  then have "length (y # ys) = length (x # xs) - i"
    by (metis length_drop)
  then show "((r, Some y, ys), (r, p, x # xs)) \<in> measure (\<lambda>(r, p, s). length s)"
    by simp
next
  fix r :: rx and p :: "char option" and x :: char and xs :: string and i n :: nat
  assume "n \<noteq> 0"
  then show "((r, Some (last (take n (drop i (x # xs)))), drop (i + n) (x # xs)), (r, p, x # xs))
      \<in> measure (\<lambda>(r, p, s). length s)"
    by simp
qed

fun hits :: "seg list \<Rightarrow> (string \<times> caps) list" where
  "hits [] = []"
| "hits (Gap g # ss) = hits ss"
| "hits (Hit m c # ss) = (m, c) # hits ss"

text \<open>A capture group; every group of the expressions below takes part in every match.\<close>

definition grp :: "caps \<Rightarrow> nat \<Rightarrow> string" where
  "grp c n = (case c n of Some v \<Rightarrow> v | None \<Rightarrow> [])"

fun seg_out :: "(string \<Rightarrow> caps \<Rightarrow> string) \<Rightarrow> seg \<Rightarrow> string" where
  "seg_out f (Gap g) = g"
| "seg_out f (Hit m c) = f m c"

text \<open>\<open>s.replace(r, f)\<close> for a global \<open>r\<close>, and for a non-global one (first match only).\<close>

definition replace_all :: "rx \<Rightarrow> (string \<Rightarrow> caps \<Rightarrow> string) \<Rightarrow> string \<Rightarrow> string" where
  "replace_all r f s = concat (map (seg_out f) (segments r None s))"

definition replace_first :: "rx \<Rightarrow> (string \<Rightarrow> caps \<Rightarrow> string) \<Rightarrow> string \<Rightarrow> string" where
  "replace_first r f s =
     (case rx_exec r None s of
        None \<Rightarrow> s
      | Some (i, n, c) \<Rightarrow> take i s @ f (take n (drop i s)) c @ drop (i + n) s)"

section \<open>The converter\<close>

datatype CollectionType = Array | List | IList | IEnumerable | IReadOnlyList

datatype TypeStyle = ClassStyle | RecordPositional | RecordProperties

datatype NullableStyle = Nullable | Defaults

datatype SerializationAttributes = SystemTextJson | NewtonsoftJson

record ConverterOptions =
  typeStyle :: TypeStyle
  inferEnums :: bool
  inferDateTimes :: bool
  collectionType :: CollectionType

subsection \<open>convertCollectionType\<close>

definition listRegex :: rx where
  \<open>listRegex = seq [WordB, Lit ''List<'']\<close>

fun convertCollectionType :: "string \<Rightarrow> CollectionType \<Rightarrow> string" where
  \<open>convertCollectionType code List = code\<close>
| \<open>convertCollectionType code IList = replace_all listRegex (\<lambda>m c. ''IList<'') code\<close>
| \<open>convertCollectionType code IEnumerable = replace_all listRegex (\<lambda>m c. ''IEnumerable<'') code\<close>
| \<open>convertCollectionType code IReadOnlyList =
     replace_all listRegex (\<lambda>m c. ''IReadOnlyList<'') code\<close>
| \<open>convertCollectionType code Array = code\<close>

subsection \<open>addNullableAnnotations and addDefaultValues\<close>

definition VALUE_TYPES :: "string set" where
  \<open>VALUE_TYPES = {''bool'', ''byte'', ''sbyte'', ''short'', ''ushort'', ''int'', ''uint'',
     ''long'', ''ulong'', ''float'', ''double'', ''decimal'', ''char'',
     ''DateTime'', ''DateTimeOffset'', ''TimeSpan'', ''Guid''}\<close>

definition propertyRegex :: rx where
  \<open>propertyRegex = seq [Lit ''public'', Plus Space, Group 1 (Plus NonSpace), Plus Space,
     Group 2 (Plus Word), Star Space, Lit ''{'', Star Space, Lit ''get;'', Star Space,
     Lit ''set;'', Star Space, Lit ''}'']\<close>

definition genericRegex :: rx where
  \<open>genericRegex = seq [Lit ''<'', Star Dot, Lit ''>'']\<close>

text \<open>\<open>type.replace(/<.*>/, '')\<close>: the type with its generic part removed.\<close>

definition baseType :: "string \<Rightarrow> string" where
  \<open>baseType ty = replace_first genericRegex (\<lambda>m c. []) ty\<close>

definition nullableReplacer :: "string \<Rightarrow> caps \<Rightarrow> string" where
  \<open>nullableReplacer m c =
     (let ty = grp c 1; name = grp c 2 in
      if endsWith ty ''?'' then m
      else if baseType ty \<in> VALUE_TYPES then m
      else ''public '' @ ty @ ''? '' @ name @ '' { get; set; }'')\<close>

definition addNullableAnnotations :: "string \<Rightarrow> string" where
  \<open>addNullableAnnotations code = replace_all propertyRegex nullableReplacer code\<close>

definition defaultValue :: "string \<Rightarrow> string" where
  \<open>defaultValue ty =
     (if ty = ''string'' then ''string.Empty''
      else if startsWith ty ''IEnumerable<'' \<or> startsWith ty ''List<'' \<or> startsWith ty ''IList<''
              \<or> startsWith ty ''IReadOnlyList<'' \<or> endsWith ty ''[]'' then ''[]''
      else if ty = ''object'' then ''new object()''
      else ''default!'')\<close>

definition defaultReplacer :: "string \<Rightarrow> caps \<Rightarrow> string" where
  \<open>defaultReplacer m c =
     (let ty = grp c 1; name = grp c 2 in
      if endsWith ty ''?'' then m
      else if baseType ty \<in> VALUE_TYPES then m
      else ''public '' @ ty @ '' '' @ name @ '' { get; set; } = '' @ defaultValue ty @ '';'')\<close>

definition addDefaultValues :: "string \<Rightarrow> string" where
  \<open>addDefaultValues code = replace_all propertyRegex defaultReplacer code\<close>

subsection \<open>removeRedundantAttributes\<close>

definition attrName :: rx where
  \<open>attrName = Alt (Lit ''JsonPropertyName'') (Lit ''JsonProperty'')\<close>

definition redundantAttrRegex :: rx where
  \<open>redundantAttrRegex = seq [Bol, Star Blank, Lit ''['', attrName, Lit ''("'',
     Group 1 (Plus Word), Lit ''")]\<newline>'',
     Group 2 (seq [Star Blank, Lit ''public'', Plus Space, Plus NonSpace, Plus Space,
       Group 3 (Plus Word), Star Space, Lit ''{''])]\<close>

definition redundantReplacer :: "string \<Rightarrow> caps \<Rightarrow> string" where
  \<open>redundantReplacer m c =
     (let jsonKey = grp c 1; propertyLine = grp c 2; propName = grp c 3 in
      if toLowerCase jsonKey = toLowerCase propName then propertyLine else m)\<close>

definition removeRedundantAttributes :: "string \<Rightarrow> string" where
  \<open>removeRedundantAttributes code = replace_all redundantAttrRegex redundantReplacer code\<close>

subsection \<open>convertToPositionalRecords\<close>

definition classRegex :: rx where
  \<open>classRegex = seq [Lit ''public'', Plus Space, Lit ''class'', Plus Space,
     Group 1 (Plus Word), Star Space, Lit ''{'', Group 2 (LazyStar AnyChar),
     Lit ''\<newline>}'']\<close>

definition recordPropertyRegex :: rx where
  \<open>recordPropertyRegex = seq [
     Opt (seq [Lit ''['', attrName, Lit ''("'', Star NotQuote, Lit ''")]'', Star Space,
       Lit ''\<newline>'', Star Space]),
     Lit ''public'', Plus Space, Group 1 (Plus NonSpace), Plus Space,
     Group 2 (Plus Word), Star Space, Lit ''{'', Star Space, Lit ''get;'', Star Space,
     Lit ''set;'', Star Space, Lit ''}'',
     Opt (seq [Star Space, Lit ''='', Star Space, Plus NotSemi])]\<close>

definition attrRegex :: rx where
  \<open>attrRegex = seq [Lit ''['', Group 1 attrName, Lit ''("'', Group 2 (Star NotQuote),
     Lit ''")]'']\<close>

text \<open>One constructor parameter, from one match of the property expression in a class body.\<close>

definition recordParameter :: "string \<times> caps \<Rightarrow> string" where
  \<open>recordParameter pm =
     (let fullMatch = fst pm; ty = grp (snd pm) 1; name = grp (snd pm) 2 in
      case rx_exec attrRegex None fullMatch of
        Some (i, n, a) \<Rightarrow>
          ''[property: '' @ grp a 1 @ ''("'' @ grp a 2 @ ''")] '' @ ty @ '' '' @ name
      | None \<Rightarrow> ty @ '' '' @ name)\<close>

text \<open>
  The \<open>exec\<close> loop over the class body. The property expression has no empty match
  (it contains the literal \<open>public\<close>), so the loop visits the matches of a global scan.
\<close>

definition recordParameters :: "string \<Rightarrow> string list" where
  \<open>recordParameters body = map recordParameter (hits (segments recordPropertyRegex None body))\<close>

definition recordReplacer :: "string \<Rightarrow> caps \<Rightarrow> string" where
  \<open>recordReplacer m c =
     (let className = grp c 1; body = grp c 2; parameters = recordParameters body in
      if length parameters = 0 then m
      else ''public record '' @ className @ ''('' @ join '', '' parameters @ '');'')\<close>

definition convertToPositionalRecords :: "string \<Rightarrow> string" where
  \<open>convertToPositionalRecords code = replace_all classRegex recordReplacer code\<close>

subsection \<open>convertJsonToCSharp\<close>

definition partialRegex :: rx where
  \<open>partialRegex = seq [Lit ''public'', Plus Space, Lit ''partial'', Plus Space, Lit ''class'']\<close>

definition classKeywordRegex :: rx where
  \<open>classKeywordRegex = seq [Lit ''public'', Plus Space, Lit ''class'', Plus Space,
     Group 1 (Plus Word)]\<close>

definition usingStatement :: "SerializationAttributes \<Rightarrow> string" where
  \<open>usingStatement fw =
     (if fw = SystemTextJson then ''using System.Text.Json.Serialization;''
      else ''using Newtonsoft.Json;'')\<close>

text \<open>
  A JavaScript string is truthy when it is present and not empty.
\<close>

definition truthy :: "string option \<Rightarrow> bool" where
  \<open>truthy ns = (case ns of None \<Rightarrow> False | Some n \<Rightarrow> n \<noteq> [])\<close>

text \<open>
  The post-processing of \<open>convertJsonToCSharp\<close>, from \<open>result.lines.join('\n')\<close>
  on. The renderer is an external library: its result, the list \<open>lines\<close>, is a
  parameter. The options are the resolved configuration.
\<close>

definition convertJsonToCSharp ::
  "string list \<Rightarrow> ConverterOptions \<Rightarrow> NullableStyle option \<Rightarrow> string option
     \<Rightarrow> SerializationAttributes option \<Rightarrow> bool \<Rightarrow> string" where
  \<open>convertJsonToCSharp lines options nullableStyle namespace serializationAttributes
       alwaysRenderAttributes =
     (let output = join ''\<newline>'' lines;
          output = (if serializationAttributes \<noteq> None \<and> \<not> alwaysRenderAttributes
                    then removeRedundantAttributes output else output);
          output = (if collectionType options \<noteq> Array
                    then convertCollectionType output (collectionType options) else output);
          output = (if nullableStyle = Some Nullable then addNullableAnnotations output
                    else if nullableStyle = Some Defaults then addDefaultValues output
                    else output);
          output = replace_all partialRegex (\<lambda>m c. ''public class'') output;
          output = (if typeStyle options = RecordPositional
                    then convertToPositionalRecords output
                    else if typeStyle options = RecordProperties
                    then replace_all classKeywordRegex (\<lambda>m c. ''public record '' @ grp c 1) output
                    else output);
          output = (case namespace of
                      Some ns \<Rightarrow>
                        if truthy namespace
                        then ''namespace '' @ ns @ '';\<newline>\<newline>'' @ output
                        else output
                    | None \<Rightarrow> output);
          output = (case serializationAttributes of
                      Some fw \<Rightarrow>
                        if truthy namespace
                        then usingStatement fw @ ''\<newline>\<newline>'' @ output
                        else output
                    | None \<Rightarrow> output)
      in trim output)\<close>

subsection \<open>The stages of the pipeline\<close>

text \<open>Each stage of the post-processing, as a function of the configuration it reads.\<close>

definition attributeStage :: "SerializationAttributes option \<Rightarrow> bool \<Rightarrow> string \<Rightarrow> string" where
  \<open>attributeStage serializationAttributes alwaysRenderAttributes output =
     (if serializationAttributes \<noteq> None \<and> \<not> alwaysRenderAttributes
      then removeRedundantAttributes output else output)\<close>

definition collectionStage :: "ConverterOptions \<Rightarrow> string \<Rightarrow> string" where
  \<open>collectionStage options output =
     (if collectionType options \<noteq> Array
      then convertCollectionType output (collectionType options) else output)\<close>

definition nullabilityStage :: "NullableStyle option \<Rightarrow> string \<Rightarrow> string" where
  \<open>nullabilityStage nullableStyle output =
     (case nullableStyle of
        Some Nullable \<Rightarrow> addNullableAnnotations output
      | Some Defaults \<Rightarrow> addDefaultValues output
      | None \<Rightarrow> output)\<close>

definition partialStage :: "string \<Rightarrow> string" where
  \<open>partialStage output = replace_all partialRegex (\<lambda>m c. ''public class'') output\<close>

definition typeStyleStage :: "ConverterOptions \<Rightarrow> string \<Rightarrow> string" where
  \<open>typeStyleStage options output =
     (case typeStyle options of
        RecordPositional \<Rightarrow> convertToPositionalRecords output
      | RecordProperties \<Rightarrow>
          replace_all classKeywordRegex (\<lambda>m c. ''public record '' @ grp c 1) output
      | ClassStyle \<Rightarrow> output)\<close>

definition namespaceStage :: "string option \<Rightarrow> SerializationAttributes option \<Rightarrow> string \<Rightarrow> string" where
  \<open>namespaceStage namespace serializationAttributes output =
     (case namespace of
        None \<Rightarrow> output
      | Some ns \<Rightarrow>
          if ns = [] then output
          else (case serializationAttributes of
                  None \<Rightarrow> []
                | Some fw \<Rightarrow> usingStatement fw @ ''\<newline>\<newline>'')
               @ ''namespace '' @ ns @ '';\<newline>\<newline>'' @ output)\<close>

text \<open>The type declarations: the text after the first five stages.\<close>

definition declarations ::
  "string list \<Rightarrow> ConverterOptions \<Rightarrow> NullableStyle option
     \<Rightarrow> SerializationAttributes option \<Rightarrow> bool \<Rightarrow> string" where
  \<open>declarations lines options nullableStyle serializationAttributes alwaysRenderAttributes =
     typeStyleStage options
       (partialStage
         (nullabilityStage nullableStyle
           (collectionStage options
             (attributeStage serializationAttributes alwaysRenderAttributes
               (join ''\<newline>'' lines)))))\<close>

definition trimEnd :: "string \<Rightarrow> string" where
  "trimEnd s = rev (dropWhile isSpace (rev s))"

subsection \<open>The header the specification asks for\<close>

text \<open>
  The specification's namespace stage, in its words: the import lines that are needed,
  one for the generic collections when the text uses a generic collection spelling and
  one for the serialization framework when attributes are enabled, in lexicographic
  order, each on its own line at the start of the output.
\<close>

fun contains :: "string \<Rightarrow> string \<Rightarrow> bool" where
  "contains sub [] = (sub = [])"
| "contains sub (x # xs) = (startsWith (x # xs) sub \<or> contains sub xs)"

definition spec_usesGenericCollection :: "string \<Rightarrow> bool" where
  \<open>spec_usesGenericCollection text =
     (contains ''List<'' text \<or> contains ''IEnumerable<'' text)\<close>

definition spec_importLines :: "string \<Rightarrow> SerializationAttributes option \<Rightarrow> string list" where
  \<open>spec_importLines text serializationAttributes =
     (case serializationAttributes of
        Some NewtonsoftJson \<Rightarrow> [''using Newtonsoft.Json;'']
      | _ \<Rightarrow> [])
     @ (if spec_usesGenericCollection text then [''using System.Collections.Generic;''] else [])
     @ (case serializationAttributes of
        Some SystemTextJson \<Rightarrow> [''using System.Text.Json.Serialization;'']
      | _ \<Rightarrow> [])\<close>

definition spec_beginsWithImports :: "string \<Rightarrow> string \<Rightarrow> SerializationAttributes option \<Rightarrow> bool" where
  \<open>spec_beginsWithImports output text serializationAttributes =
     startsWith output (concat (map (\<lambda>l. l @ ''\<newline>'') (spec_importLines text serializationAttributes)))\<close>

section \<open>The renderer's layout\<close>

text \<open>
  The renderer writes one declaration per line. A key attribute line is a line that holds,
  after blanks, \<open>[JsonPropertyName("k")]\<close> or \<open>[JsonProperty("k")]\<close> with a
  non-empty word \<open>k\<close>, and nothing else. A text in the layout is a list of blocks
  joined by line breaks. A block is a plain line, which is any line that is not a key
  attribute line; or an attribute line directly followed by a one-line property
  declaration; or an attribute line directly followed by a plain line that does not
  start, after blanks, with the letter \<open>p\<close> (another attribute of the property,
  for instance). The type of a property is any text without line break and without
  \<open>{\<close> that neither starts nor ends with white space: it may hold spaces, as
  \<open>Dictionary<string, long>\<close> does. The name is a non-empty word.
\<close>

record aprop =
  a_indent :: string
  a_attr :: string
  a_key :: string
  p_indent :: string
  p_type :: string
  p_name :: string
  p_tail :: string

datatype block = Line string | Annotated aprop | Loose string string string string

definition propertyLine :: "aprop \<Rightarrow> string" where
  \<open>propertyLine q = p_indent q @ ''public '' @ p_type q @ '' '' @ p_name q @ '' {'' @ p_tail q\<close>

definition attributeLine :: "aprop \<Rightarrow> string" where
  \<open>attributeLine q = a_indent q @ ''['' @ a_attr q @ ''("'' @ a_key q @ ''")]''\<close>

fun renderBlock :: "block \<Rightarrow> string" where
  \<open>renderBlock (Line l) = l\<close>
| \<open>renderBlock (Annotated q) = attributeLine q @ ''\<newline>'' @ propertyLine q\<close>
| \<open>renderBlock (Loose i a k l) = i @ ''['' @ a @ ''("'' @ k @ ''")]'' @ ''\<newline>'' @ l\<close>

definition renderText :: "block list \<Rightarrow> string" where
  \<open>renderText bs = join ''\<newline>'' (map renderBlock bs)\<close>

definition keyAttributeLine :: "string \<Rightarrow> bool" where
  \<open>keyAttributeLine l =
     (let r = dropWhile (in_class Blank) l in
      list_ex (\<lambda>a. startsWith r (''['' @ a @ ''("'')
          \<and> takeWhile isWord (drop (length a + 3) r) \<noteq> []
          \<and> dropWhile isWord (drop (length a + 3) r) = ''")]'')
        [''JsonPropertyName'', ''JsonProperty''])\<close>

definition plainLine :: "string \<Rightarrow> bool" where
  \<open>plainLine l = (list_all (\<lambda>x. \<not> isLineTerminator x) l \<and> \<not> keyAttributeLine l)\<close>

fun wellFormed :: "block \<Rightarrow> bool" where
  \<open>wellFormed (Line l) = plainLine l\<close>
| \<open>wellFormed (Annotated q) =
     (list_all (in_class Blank) (a_indent q)
      \<and> (a_attr q = ''JsonPropertyName'' \<or> a_attr q = ''JsonProperty'')
      \<and> list_all (\<lambda>x. \<not> isLineTerminator x) (a_key q)
      \<and> list_all (in_class Blank) (p_indent q)
      \<and> p_type q \<noteq> [] \<and> \<not> isSpace (hd (p_type q)) \<and> \<not> isSpace (last (p_type q))
      \<and> list_all (\<lambda>x. \<not> isLineTerminator x \<and> x \<noteq> CHR ''{'') (p_type q)
      \<and> p_name q \<noteq> [] \<and> list_all isWord (p_name q)
      \<and> list_all (\<lambda>x. \<not> isLineTerminator x) (p_tail q))\<close>
| \<open>wellFormed (Loose i a k l) =
     (list_all (in_class Blank) i
      \<and> (a = ''JsonPropertyName'' \<or> a = ''JsonProperty'')
      \<and> list_all (\<lambda>x. \<not> isLineTerminator x) k
      \<and> plainLine l
      \<and> (case dropWhile (in_class Blank) l of [] \<Rightarrow> True | x # _ \<Rightarrow> x \<noteq> CHR ''p''))\<close>

text \<open>
  What the elimination does on such a text: an attribute line goes when its key is a
  non-empty word, the type of the property has no white space, and key and property
  name are equal up to case.
\<close>

definition redundantKey :: "aprop \<Rightarrow> bool" where
  \<open>redundantKey q = (a_key q \<noteq> [] \<and> list_all isWord (a_key q)
     \<and> list_all (\<lambda>x. \<not> isSpace x) (p_type q)
     \<and> toLowerCase (a_key q) = toLowerCase (p_name q))\<close>

fun eliminate :: "block \<Rightarrow> block" where
  \<open>eliminate (Line l) = Line l\<close>
| \<open>eliminate (Annotated q) = (if redundantKey q then Line (propertyLine q) else Annotated q)\<close>
| \<open>eliminate (Loose i a k l) = Loose i a k l\<close>

section \<open>The layout of a class declaration\<close>

text \<open>
  A class as the renderer writes it, after the partial modifier is removed: the header,
  an opening brace, the properties and a closing brace. Each property starts on a new
  line, indented by four spaces, after an optional blank line; it may carry one attribute
  line and, after the defaults stage, an initializer. In a well-formed property the key
  of the attribute has no quote and no line break, the type is a non-empty run of
  non-space characters, the name a non-empty word, and the initializer a non-empty text
  without semicolon or line break that does not start with a space; neither the type
  nor the initializer contains \<open>[J\<close>.
\<close>

record member =
  m_blank :: bool
  m_attr :: "(string \<times> string) option"
  m_type :: string
  m_name :: string
  m_init :: "string option"

fun noAttrStart :: "string \<Rightarrow> bool" where
  "noAttrStart [] = True"
| "noAttrStart [x] = True"
| "noAttrStart (x # y # s) = (\<not> (x = CHR ''['' \<and> y = CHR ''J'') \<and> noAttrStart (y # s))"

definition memberAttr :: "member \<Rightarrow> string" where
  \<open>memberAttr f = (case m_attr f of
       None \<Rightarrow> []
     | Some (a, key) \<Rightarrow> ''['' @ a @ ''("'' @ key @ ''")]\<newline>    '')\<close>

definition memberInit :: "member \<Rightarrow> string" where
  \<open>memberInit f = (case m_init f of None \<Rightarrow> [] | Some d \<Rightarrow> '' = '' @ d)\<close>

definition memberDecl :: "member \<Rightarrow> string" where
  \<open>memberDecl f = memberAttr f @ ''public '' @ m_type f @ '' '' @ m_name f @ '' { get; set; }''
     @ memberInit f\<close>

definition memberEnd :: "member \<Rightarrow> string" where
  \<open>memberEnd f = (case m_init f of None \<Rightarrow> [] | Some d \<Rightarrow> '';'')\<close>

definition memberText :: "member \<Rightarrow> string" where
  \<open>memberText f = (if m_blank f then ''\<newline>'' else []) @ ''\<newline>    '' @ memberDecl f @ memberEnd f\<close>

definition classBody :: "member list \<Rightarrow> string" where
  \<open>classBody fs = concat (map memberText fs)\<close>

definition renderClass :: "string \<Rightarrow> member list \<Rightarrow> string" where
  \<open>renderClass cn fs = ''public class '' @ cn @ ''\<newline>{'' @ classBody fs @ ''\<newline>}''\<close>

definition wfMember :: "member \<Rightarrow> bool" where
  \<open>wfMember f =
     ((case m_attr f of
         None \<Rightarrow> True
       | Some (a, key) \<Rightarrow> (a = ''JsonPropertyName'' \<or> a = ''JsonProperty'')
           \<and> list_all (\<lambda>x. x \<noteq> CHR 0x22 \<and> x \<noteq> CHR ''\<newline>'') key)
      \<and> m_type f \<noteq> [] \<and> list_all (\<lambda>x. \<not> isSpace x) (m_type f) \<and> noAttrStart (m_type f)
      \<and> m_name f \<noteq> [] \<and> list_all isWord (m_name f)
      \<and> (case m_init f of
            None \<Rightarrow> True
          | Some d \<Rightarrow> d \<noteq> [] \<and> \<not> isSpace (hd d)
              \<and> list_all (\<lambda>x. x \<noteq> CHR '';'' \<and> x \<noteq> CHR ''\<newline>'') d \<and> noAttrStart d))\<close>

text \<open>The constructor parameter that belongs to a property: attribute, type and name.\<close>

definition parameterOf :: "member \<Rightarrow> string" where
  \<open>parameterOf f =
     (case m_attr f of
        None \<Rightarrow> []
      | Some (a, key) \<Rightarrow> ''[property: '' @ a @ ''("'' @ key @ ''")] '')
     @ m_type f @ '' '' @ m_name f\<close>

definition recordOf :: "string \<Rightarrow> member list \<Rightarrow> string" where
  \<open>recordOf cn fs =
     (if fs = [] then renderClass cn fs
      else ''public record '' @ cn @ ''('' @ join '', '' (map parameterOf fs) @ '');'')\<close>

section \<open>Auxiliary notions for the proofs\<close>

text \<open>The text of a segment, and the character before the text that follows a word.\<close>

fun seg_text :: "seg \<Rightarrow> string" where
  "seg_text (Gap g) = g"
| "seg_text (Hit m c) = m"


definition prevAfter :: "char option \<Rightarrow> string \<Rightarrow> char option" where
  "prevAfter p w = (if w = [] then p else Some (last w))"

text \<open>A global scan from a position, as the text it returns.\<close>

definition scan :: "rx \<Rightarrow> (string \<Rightarrow> caps \<Rightarrow> string) \<Rightarrow> char option \<Rightarrow> string \<Rightarrow> string" where
  "scan r f p s = concat (map (seg_out f) (segments r p s))"

text \<open>
  A continuation rejects a class when it fails on every text that starts with a character
  of the class: then a greedy repetition of the class never gives a character back.
\<close>

definition rejects :: "cclass \<Rightarrow> item list \<Rightarrow> bool" where
  "rejects cl k = (\<forall>y s p c. in_class cl y \<longrightarrow> matcher k (y # s) p c = None)"

text \<open>The text a group has consumed since it was opened.\<close>

definition consumed :: "string \<Rightarrow> string \<Rightarrow> string" where
  "consumed s0 s = take (length s0 - length s) s0"

text \<open>The matches of a global scan from a position.\<close>

definition collect :: "rx \<Rightarrow> char option \<Rightarrow> string \<Rightarrow> (string \<times> caps) list" where
  "collect r p s = hits (segments r p s)"

text \<open>A text on which the optional initializer of the property expression fails.\<close>

definition initFails :: "string \<Rightarrow> bool" where
  \<open>initFails s = (\<forall>q c. matcher [Rx (Star Space), Rx (seq [Lit ''='', Star Space, Plus NotSemi])] s q c = None)\<close>

text \<open>The captures of a property, and the two parts of its text that have no line break.\<close>

definition memberCaps :: "member \<Rightarrow> caps" where
  "memberCaps f = [1 \<mapsto> m_type f, 2 \<mapsto> m_name f]"

definition attrText :: "member \<Rightarrow> string" where
  \<open>attrText f = (case m_attr f of None \<Rightarrow> [] | Some (a, key) \<Rightarrow> ''['' @ a @ ''("'' @ key @ ''")]'')\<close>

definition declText :: "member \<Rightarrow> string" where
  \<open>declText f = ''public '' @ m_type f @ '' '' @ m_name f @ '' { get; set; }'' @ memberInit f @ memberEnd f\<close>

section \<open>Properties of the orchestrator\<close>

lemma trim_header:
  assumes "h \<noteq> []" "\<not> isSpace (hd h)" "\<not> isSpace (last h)"
  shows "trim (h @ t) = h @ trimEnd t"
proof -
  obtain x h' where h: "h = x # h'"
    using assms(1) by (cases h) auto
  have front: "dropWhile isSpace (h @ t) = h @ t"
    using assms(2) h by simp
  have "rev h \<noteq> []" "\<not> isSpace (hd (rev h))"
    using assms(1,3) by (simp_all add: hd_rev)
  then obtain y r where r: "rev h = y # r" "\<not> isSpace y"
    by (cases "rev h") auto
  have "dropWhile isSpace (rev t @ rev h) = dropWhile isSpace (rev t) @ rev h"
  proof (cases "\<forall>z\<in>set (rev t). isSpace z")
    case True
    then have "dropWhile isSpace (rev t) = []"
      by simp
    moreover have "dropWhile isSpace (rev t @ rev h) = dropWhile isSpace (rev h)"
      using True by (intro dropWhile_append2) simp
    ultimately show ?thesis
      using r by simp
  next
    case False
    then obtain z where "z \<in> set (rev t)" "\<not> isSpace z"
      by blast
    then show ?thesis
      by (rule dropWhile_append1)
  qed
  then show ?thesis
    using front by (simp add: trim_def trimEnd_def)
qed

lemma convert_is_pipeline:
  \<open>convertJsonToCSharp lines options nullableStyle namespace serializationAttributes
       alwaysRenderAttributes =
     trim (namespaceStage namespace serializationAttributes
       (declarations lines options nullableStyle serializationAttributes
          alwaysRenderAttributes))\<close>
proof -
  have ns: \<open>nullabilityStage nullableStyle x =
      (if nullableStyle = Some Nullable then addNullableAnnotations x
       else if nullableStyle = Some Defaults then addDefaultValues x else x)\<close> for x
    by (cases nullableStyle) (auto simp: nullabilityStage_def split: NullableStyle.splits)
  have ts: \<open>typeStyleStage options x =
      (if typeStyle options = RecordPositional then convertToPositionalRecords x
       else if typeStyle options = RecordProperties
       then replace_all classKeywordRegex (\<lambda>m c. ''public record '' @ grp c 1) x
       else x)\<close> for x
    by (cases "typeStyle options") (auto simp: typeStyleStage_def)
  show ?thesis
    unfolding convertJsonToCSharp_def declarations_def Let_def ns ts
    by (cases namespace; cases serializationAttributes)
       (auto simp: namespaceStage_def attributeStage_def collectionStage_def partialStage_def
          truthy_def)
qed

text \<open>
  C8. The orchestrator runs the stages in one fixed order, each on the text the previous
  one returned: redundant-attribute elimination, collection-type substitution,
  nullability, removal of the partial modifier, type-style conversion, and last the
  namespace and using lines; the result is trimmed.
\<close>

theorem C8_stage_order:
  \<open>convertJsonToCSharp lines options nullableStyle namespace serializationAttributes
       alwaysRenderAttributes =
     trim (namespaceStage namespace serializationAttributes
       (typeStyleStage options
         (partialStage
           (nullabilityStage nullableStyle
             (collectionStage options
               (attributeStage serializationAttributes alwaysRenderAttributes
                 (join ''\<newline>'' lines)))))))\<close>
  using convert_is_pipeline [of lines options nullableStyle namespace serializationAttributes
      alwaysRenderAttributes]
  by (simp add: declarations_def)

text \<open>
  C1, as stated, fails: with the collection type \<open>List\<close>, a namespace and no
  serialization framework, the declarations use \<open>List<string>\<close> and the output
  starts with the namespace line; no import of the generic collections is emitted.
\<close>

theorem C1_generic_import_counterexample:
  \<open>convertJsonToCSharp
       [''public partial class Root'', ''{'', ''    public List<string> Roles { get; set; }'', ''}'']
       \<lparr>typeStyle = ClassStyle, inferEnums = False, inferDateTimes = True, collectionType = List\<rparr>
       None (Some ''App'') None False
     = ''namespace App;\<newline>\<newline>public class Root\<newline>{\<newline>    public List<string> Roles { get; set; }\<newline>}''
   \<and> spec_importLines
       (declarations
         [''public partial class Root'', ''{'', ''    public List<string> Roles { get; set; }'', ''}'']
         \<lparr>typeStyle = ClassStyle, inferEnums = False, inferDateTimes = True, collectionType = List\<rparr>
         None None False) None
     = [''using System.Collections.Generic;'']
   \<and> \<not> spec_beginsWithImports
       (convertJsonToCSharp
         [''public partial class Root'', ''{'', ''    public List<string> Roles { get; set; }'', ''}'']
         \<lparr>typeStyle = ClassStyle, inferEnums = False, inferDateTimes = True, collectionType = List\<rparr>
         None (Some ''App'') None False)
       (declarations
         [''public partial class Root'', ''{'', ''    public List<string> Roles { get; set; }'', ''}'']
         \<lparr>typeStyle = ClassStyle, inferEnums = False, inferDateTimes = True, collectionType = List\<rparr>
         None None False) None\<close>
  by code_simp

text \<open>
  C1, amended. When a non-empty namespace is supplied, the output is: the using line of
  the serialization framework and a blank line (only when a framework is enabled), the
  namespace line, a blank line and the declarations, with trailing white space removed.
  The using line of the framework is the only import.
\<close>

theorem C1_namespace_header:
  assumes \<open>ns \<noteq> []\<close>
  shows \<open>convertJsonToCSharp lines options nullableStyle (Some ns) serializationAttributes
            alwaysRenderAttributes =
          (case serializationAttributes of
             None \<Rightarrow> []
           | Some fw \<Rightarrow> usingStatement fw @ ''\<newline>\<newline>'')
          @ ''namespace '' @ ns @ '';''
          @ trimEnd (''\<newline>\<newline>'' @ declarations lines options nullableStyle
               serializationAttributes alwaysRenderAttributes)\<close>
proof -
  let ?d = \<open>declarations lines options nullableStyle serializationAttributes
    alwaysRenderAttributes\<close>
  let ?h = \<open>(case serializationAttributes of
             None \<Rightarrow> []
           | Some fw \<Rightarrow> usingStatement fw @ ''\<newline>\<newline>'') @ ''namespace '' @ ns @ '';''\<close>
  have stage: \<open>namespaceStage (Some ns) serializationAttributes ?d = ?h @ (''\<newline>\<newline>'' @ ?d)\<close>
    using assms by (simp add: namespaceStage_def)
  have ne: \<open>?h \<noteq> []\<close>
    by simp
  have first: \<open>\<not> isSpace (hd ?h)\<close>
    by (cases serializationAttributes) (simp_all add: usingStatement_def isSpace_def)
  have final: \<open>\<not> isSpace (last ?h)\<close>
    by (simp add: isSpace_def)
  have \<open>trim (?h @ (''\<newline>\<newline>'' @ ?d)) = ?h @ trimEnd (''\<newline>\<newline>'' @ ?d)\<close>
    using ne first final by (rule trim_header)
  then show ?thesis
    using stage
      convert_is_pipeline [of lines options nullableStyle "Some ns" serializationAttributes
        alwaysRenderAttributes]
    by simp
qed

theorem C1_namespace_header_witness:
  \<open>convertJsonToCSharp
       [''public partial class Root'', ''{'', ''    public List<string> Roles { get; set; }'', ''}'']
       \<lparr>typeStyle = ClassStyle, inferEnums = False, inferDateTimes = True, collectionType = List\<rparr>
       None (Some ''App'') (Some NewtonsoftJson) False
     = ''using Newtonsoft.Json;\<newline>\<newline>namespace App;\<newline>\<newline>public class Root\<newline>{\<newline>    public List<string> Roles { get; set; }\<newline>}''\<close>
proof -
  have ne: \<open>''App'' \<noteq> []\<close>
    by simp
  have d: \<open>declarations
       [''public partial class Root'', ''{'', ''    public List<string> Roles { get; set; }'', ''}'']
       \<lparr>typeStyle = ClassStyle, inferEnums = False, inferDateTimes = True, collectionType = List\<rparr>
       None (Some NewtonsoftJson) False
     = ''public class Root\<newline>{\<newline>    public List<string> Roles { get; set; }\<newline>}''\<close>
    by code_simp
  show ?thesis
    unfolding C1_namespace_header [OF ne] d
    by (simp add: usingStatement_def trimEnd_def isSpace_def)
qed

section \<open>The stages on the renderer's text\<close>

text \<open>
  C2. The substitution rewrites every \<open>List<\<close> that follows a word boundary, wherever
  it stands. A JSON key \<open>List<a\<close> is rendered inside the string of its attribute; with
  the collection type \<open>IEnumerable\<close> the key itself is rewritten, although it is not a
  collection type.
\<close>

theorem C2_attribute_key_rewritten:
  \<open>convertJsonToCSharp
       [''public partial class Root'', ''{'', ''    [JsonPropertyName("List<a")]'',
        ''    public long ListA { get; set; }'', ''}'']
       \<lparr>typeStyle = ClassStyle, inferEnums = False, inferDateTimes = True,
        collectionType = IEnumerable\<rparr>
       None None (Some SystemTextJson) False
     = ''public class Root\<newline>{\<newline>    [JsonPropertyName("IEnumerable<a")]\<newline>    public long ListA { get; set; }\<newline>}''\<close>
  by code_simp

text \<open>
  C3. A map-typed property is rendered as \<open>Dictionary<string, long>\<close>, with a space
  inside the type. The expression of \<open>removeRedundantAttributes\<close> reads a type as a run
  of non-space characters, so the attribute of such a property stays, although its key
  \<open>scores\<close> equals the property name \<open>Scores\<close> up to case.
\<close>

theorem C3_dictionary_attribute_kept:
  \<open>convertJsonToCSharp
       [''public partial class Root'', ''{'', ''    [JsonPropertyName("id")]'',
        ''    public long Id { get; set; }'', [], ''    [JsonPropertyName("scores")]'',
        ''    public Dictionary<string, long> Scores { get; set; }'', ''}'']
       \<lparr>typeStyle = ClassStyle, inferEnums = False, inferDateTimes = True,
        collectionType = IEnumerable\<rparr>
       None None (Some SystemTextJson) False
     = ''public class Root\<newline>{\<newline>    public long Id { get; set; }\<newline>\<newline>    [JsonPropertyName("scores")]\<newline>    public Dictionary<string, long> Scores { get; set; }\<newline>}''\<close>
  by code_simp

text \<open>
  C4. The property expression of \<open>convertToPositionalRecords\<close> reads a type as a run of
  non-space characters as well: a class with the properties \<open>Id\<close> and \<open>Scores\<close>, the
  second one a \<open>Dictionary<string, long>\<close>, becomes a record with the single parameter
  \<open>Id\<close>.
\<close>

theorem C4_dictionary_property_dropped:
  \<open>convertJsonToCSharp
       [''public partial class Root'', ''{'', ''    public long Id { get; set; }'',
        ''    public Dictionary<string, long> Scores { get; set; }'', ''}'']
       \<lparr>typeStyle = RecordPositional, inferEnums = False, inferDateTimes = True,
        collectionType = IEnumerable\<rparr>
       None None None False
     = ''public record Root(long Id);''\<close>
  by code_simp

section \<open>Properties of the matcher\<close>

lemma prevAfter_simps [simp]:
  "prevAfter p [] = p"
  "prevAfter p (x # w) = prevAfter (Some x) w"
  by (simp_all add: prevAfter_def)

lemma prevAfter_append [simp]: "prevAfter p (u @ v) = prevAfter (prevAfter p u) v"
  by (simp add: prevAfter_def)

lemma matcher_suffix:
  "matcher k s p c = Some (c', rest) \<Longrightarrow> suffix rest s"
  by (induction k s p c rule: matcher.induct)
     (auto split: if_splits option.splits intro: suffix_ConsI)

lemma matcher_seq2 [simp]:
  "matcher (Rx (seq (r # r' # rs)) # k) s p c = matcher (Rx r # Rx (seq (r' # rs)) # k) s p c"
  by simp

declare seq.simps(1,3) [simp del]

lemma Alt_inv:
  assumes "matcher (Rx (Alt a b) # k) s p c = Some r"
  shows "matcher (Rx a # k) s p c = Some r \<or> matcher (Rx b # k) s p c = Some r"
  using assms by (auto split: option.splits)

lemma Lit_inv:
  assumes "matcher (Rx (Lit w) # k) s p c = Some r"
  shows "\<exists>v. s = w @ v \<and> matcher k v (prevAfter p w) c = Some r"
  using assms
proof (induction w arbitrary: s p)
  case Nil
  then show ?case by simp
next
  case (Cons x w)
  then obtain y s' where s: "s = y # s'"
    by (cases s) auto
  with Cons.prems have xy: "x = y" and m: "matcher (Rx (Lit w) # k) s' (Some y) c = Some r"
    by (auto split: if_splits)
  from Cons.IH [OF m] obtain v where "s' = w @ v" "matcher k v (prevAfter (Some y) w) c = Some r"
    by blast
  then show ?case
    using s xy by simp
qed

lemma Star_inv:
  assumes "matcher (Rx (Star cl) # k) s p c = Some r"
  shows "\<exists>u v. s = u @ v \<and> (\<forall>x\<in>set u. in_class cl x) \<and> matcher k v (prevAfter p u) c = Some r"
  using assms
proof (induction s arbitrary: p)
  case Nil
  then show ?case by simp
next
  case (Cons y s)
  show ?case
  proof (cases "in_class cl y \<and> matcher (Rx (Star cl) # k) s (Some y) c = Some r")
    case True
    with Cons.IH obtain u v where "s = u @ v" "\<forall>x\<in>set u. in_class cl x"
      "matcher k v (prevAfter (Some y) u) c = Some r"
      by blast
    then have "y # s = (y # u) @ v \<and> (\<forall>x\<in>set (y # u). in_class cl x)
        \<and> matcher k v (prevAfter p (y # u)) c = Some r"
      using True by simp
    then show ?thesis by blast
  next
    case False
    with Cons.prems have "matcher k (y # s) p c = Some r"
      by (auto split: if_splits option.splits)
    then have "y # s = [] @ (y # s) \<and> (\<forall>x\<in>set []. in_class cl x)
        \<and> matcher k (y # s) (prevAfter p []) c = Some r"
      by simp
    then show ?thesis by blast
  qed
qed

lemma Plus_inv:
  assumes "matcher (Rx (Plus cl) # k) s p c = Some r"
  shows "\<exists>u v. s = u @ v \<and> u \<noteq> [] \<and> (\<forall>x\<in>set u. in_class cl x)
     \<and> matcher k v (prevAfter p u) c = Some r"
proof -
  from assms obtain y s' where s: "s = y # s'" "in_class cl y"
    "matcher (Rx (Star cl) # k) s' (Some y) c = Some r"
    by (cases s) (auto split: if_splits)
  from Star_inv [OF s(3)] obtain u v where "s' = u @ v" "\<forall>x\<in>set u. in_class cl x"
    "matcher k v (prevAfter (Some y) u) c = Some r"
    by blast
  then have "s = (y # u) @ v \<and> y # u \<noteq> [] \<and> (\<forall>x\<in>set (y # u). in_class cl x)
      \<and> matcher k v (prevAfter p (y # u)) c = Some r"
    using s by simp
  then show ?thesis by blast
qed

lemma Star_run:
  assumes "\<forall>x\<in>set u. in_class cl x"
    and "v = [] \<or> \<not> in_class cl (hd v)"
    and "\<And>y s p c. in_class cl y \<Longrightarrow> matcher k (y # s) p c = None"
  shows "matcher (Rx (Star cl) # k) (u @ v) p c = matcher k v (prevAfter p u) c"
  using assms(1)
proof (induction u arbitrary: p)
  case Nil
  then show ?case
    using assms(2) by (cases v) auto
next
  case (Cons x u)
  then have ih: "matcher (Rx (Star cl) # k) (u @ v) (Some x) c = matcher k v (prevAfter (Some x) u) c"
    and x: "in_class cl x"
    by auto
  show ?case
    using x ih assms(3) [OF x] by (simp split: option.splits)
qed

lemma Plus_run:
  assumes "u \<noteq> []" "\<forall>x\<in>set u. in_class cl x"
    and "v = [] \<or> \<not> in_class cl (hd v)"
    and "\<And>y s p c. in_class cl y \<Longrightarrow> matcher k (y # s) p c = None"
  shows "matcher (Rx (Plus cl) # k) (u @ v) p c = matcher k v (prevAfter p u) c"
proof -
  obtain x u' where u: "u = x # u'"
    using assms(1) by (cases u) auto
  have "matcher (Rx (Star cl) # k) (u' @ v) (Some x) c = matcher k v (prevAfter (Some x) u') c"
    using assms(2) u by (intro Star_run assms(3,4)) auto
  then show ?thesis
    using u assms(2) by simp
qed

lemma Star_first:
  assumes "\<forall>x\<in>set u. in_class cl x"
    and "v = [] \<or> \<not> in_class cl (hd v)"
    and "matcher k v (prevAfter p u) c = Some r"
  shows "matcher (Rx (Star cl) # k) (u @ v) p c = Some r"
  using assms(1,3)
proof (induction u arbitrary: p)
  case Nil
  then show ?case
    using assms(2) by (cases v) auto
next
  case (Cons x u)
  then show ?case by simp
qed

lemma Plus_first:
  assumes "u \<noteq> []" "\<forall>x\<in>set u. in_class cl x"
    and "v = [] \<or> \<not> in_class cl (hd v)"
    and "matcher k v (prevAfter p u) c = Some r"
  shows "matcher (Rx (Plus cl) # k) (u @ v) p c = Some r"
proof -
  obtain x u' where u: "u = x # u'"
    using assms(1) by (cases u) auto
  have "matcher (Rx (Star cl) # k) (u' @ v) (Some x) c = Some r"
    using assms u by (intro Star_first) auto
  then show ?thesis
    using u assms(2) by simp
qed


lemma take_consumed [simp]: "take (length (u @ v) - length v) (u @ v) = u"
  by simp

section \<open>Properties of a global scan\<close>

lemma segments_concat: "concat (map seg_text (segments r p s)) = s"
proof (induction r p s rule: segments.induct)
  case (1 r p)
  then show ?case by (auto split: option.splits)
next
  case (2 r p x xs)
  show ?case
  proof (cases "rx_exec r p (x # xs)")
    case None
    then show ?thesis by simp
  next
    case (Some t)
    obtain i n c where t: "t = (i, n, c)" by (cases t) auto
    show ?thesis
    proof (cases "n = 0")
      case True
      show ?thesis
      proof (cases "drop i (x # xs)")
        case Nil
        then show ?thesis using Some t True by simp
      next
        case (Cons y ys)
        have "concat (map seg_text (segments r (Some y) ys)) = ys"
          using 2(1) [OF Some [unfolded t] refl refl True Cons] .
        then have "take i (x # xs) @ y # concat (map seg_text (segments r (Some y) ys)) = x # xs"
          using Cons by (metis append_take_drop_id)
        then show ?thesis using Some t True Cons by simp
      qed
    next
      case False
      have ih: "concat (map seg_text (segments r (Some (last (take n (drop i (x # xs))))) (drop (i + n) (x # xs)))) = drop (i + n) (x # xs)"
        using 2(2) [OF Some [unfolded t] refl refl False] .
      have "take i (x # xs) @ take n (drop i (x # xs)) @ drop (i + n) (x # xs) = x # xs"
        by (metis add.commute append_take_drop_id drop_drop)
      then show ?thesis using Some t False ih by simp
    qed
  qed
qed

lemma replace_all_id:
  assumes "\<forall>(m, c) \<in> set (hits (segments r None s)). f m c = m"
  shows "replace_all r f s = s"
proof -
  have "map (seg_out f) ss = map seg_text ss" if "\<forall>(m, c) \<in> set (hits ss). f m c = m" for ss
    using that
  proof (induction ss)
    case Nil
    then show ?case by simp
  next
    case (Cons a ss)
    then show ?case by (cases a) auto
  qed
  from this [OF assms] have "map (seg_out f) (segments r None s) = map seg_text (segments r None s)" .
  then show ?thesis
    unfolding replace_all_def by (metis segments_concat)
qed

lemma rx_exec_sound:
  "rx_exec r p s = Some (i, n, c) \<Longrightarrow>
     \<exists>p' rest. matcher [Rx r] (drop i s) p' Map.empty = Some (c, rest)
       \<and> drop i s = take n (drop i s) @ rest"
proof (induction s arbitrary: p i)
  case Nil
  then obtain rest where m: "matcher [Rx r] [] p Map.empty = Some (c, rest)" and "i = 0" "n = 0"
    by (auto split: option.splits)
  moreover from matcher_suffix [OF m] have "rest = []"
    by simp
  ultimately show ?case
    by auto
next
  case (Cons x xs)
  show ?case
  proof (cases "matcher [Rx r] (x # xs) p Map.empty")
    case None
    with Cons.prems obtain i' where r: "rx_exec r (Some x) xs = Some (i', n, c)" and i: "i = Suc i'"
      by (auto split: option.splits)
    from Cons.IH [OF r] show ?thesis
      using i by simp
  next
    case (Some cr)
    obtain c' rest where cr: "cr = (c', rest)"
      by (cases cr) auto
    with Some Cons.prems have e: "i = 0" "n = length (x # xs) - length rest" "c' = c"
      by auto
    from matcher_suffix [OF Some [unfolded cr]] obtain w where w: "x # xs = w @ rest"
      by (auto simp: suffix_def)
    then have "take n (x # xs) = w"
      using e(2) by simp
    then show ?thesis
      using Some cr e w by auto
  qed
qed

lemma hits_sound:
  "(m, c) \<in> set (hits (segments r p s)) \<Longrightarrow>
     \<exists>s' p' rest. matcher [Rx r] s' p' Map.empty = Some (c, rest) \<and> s' = m @ rest"
proof (induction r p s rule: segments.induct)
  case (1 r p)
  then obtain i n where e: "rx_exec r p [] = Some (i, n, c)" and m: "m = []"
    by (auto split: option.splits)
  from rx_exec_sound [OF e] show ?case
    using m by auto
next
  case (2 r p x xs)
  show ?case
  proof (cases "rx_exec r p (x # xs)")
    case None
    with 2(3) show ?thesis by simp
  next
    case (Some t)
    obtain i n c' where t: "t = (i, n, c')"
      by (cases t) auto
    note e = Some [unfolded t]
    show ?thesis
    proof (cases "(m, c) = (take n (drop i (x # xs)), c')")
      case True
      from rx_exec_sound [OF e] obtain p' rest
        where "matcher [Rx r] (drop i (x # xs)) p' Map.empty = Some (c', rest)"
          "drop i (x # xs) = take n (drop i (x # xs)) @ rest"
        by blast
      then have "matcher [Rx r] (drop i (x # xs)) p' Map.empty = Some (c, rest)
          \<and> drop i (x # xs) = m @ rest"
        using True by simp
      then show ?thesis
        by blast
    next
      case False
      show ?thesis
      proof (cases "n = 0")
        case True
        with 2(3) e False obtain y ys where d: "drop i (x # xs) = y # ys"
          and "(m, c) \<in> set (hits (segments r (Some y) ys))"
          by (auto split: list.splits)
        with 2(1) [OF e refl refl True d] show ?thesis
          by blast
      next
        case n: False
        with 2(3) e False
        have "(m, c) \<in> set (hits (segments r (Some (last (take n (drop i (x # xs)))))
                 (drop (i + n) (x # xs))))"
          by auto
        with 2(2) [OF e refl refl n] show ?thesis
          by blast
      qed
    qed
  qed
qed

lemma list_all_hits:
  assumes "\<And>s p c rest. matcher [Rx r] s p Map.empty = Some (c, rest) \<Longrightarrow>
             \<exists>m. s = m @ rest \<and> P m c"
  shows "list_all (\<lambda>(m, c). P m c) (hits (segments r p0 code))"
  unfolding list_all_iff
proof (clarify)
  fix m c
  assume "(m, c) \<in> set (hits (segments r p0 code))"
  from hits_sound [OF this] obtain s' p' rest
    where h: "matcher [Rx r] s' p' Map.empty = Some (c, rest)" "s' = m @ rest"
    by blast
  from assms [OF h(1)] obtain m' where "s' = m' @ rest" "P m' c"
    by blast
  then show "P m c"
    using h(2) by simp
qed

lemma replace_all_scan: "replace_all r f s = scan r f None s"
  by (simp add: replace_all_def scan_def)

lemma rx_exec_None_Nil:
  "matcher [Rx r] [] p Map.empty = None \<Longrightarrow> rx_exec r p [] = None"
  by simp

lemma scan_Nil:
  "matcher [Rx r] [] p Map.empty = None \<Longrightarrow> scan r f p [] = []"
  by (simp add: scan_def)

lemma scan_skip:
  assumes "matcher [Rx r] (x # xs) p Map.empty = None"
  shows "scan r f p (x # xs) = x # scan r f (Some x) xs"
proof (cases "rx_exec r (Some x) xs")
  case None
  then have "rx_exec r p (x # xs) = None"
    using assms by simp
  moreover have "scan r f (Some x) xs = xs"
    using None by (cases xs) (simp_all add: scan_def)
  ultimately show ?thesis
    by (simp add: scan_def)
next
  case (Some t)
  obtain i n c where t: "t = (i, n, c)"
    by (cases t) auto
  have e: "rx_exec r p (x # xs) = Some (Suc i, n, c)"
    using assms Some t by simp
  show ?thesis
  proof (cases xs)
    case Nil
    with Some t have "i = 0" "n = 0"
      by (auto split: option.splits)
    then show ?thesis
      using e Some t Nil by (simp add: scan_def)
  next
    case (Cons y ys)
    show ?thesis
      using e Some t unfolding Cons scan_def by simp
  qed
qed

lemma scan_hit:
  assumes "matcher [Rx r] (m @ rest) p Map.empty = Some (c, rest)" and "m \<noteq> []"
  shows "scan r f p (m @ rest) = f m c @ scan r f (prevAfter p m) rest"
proof -
  obtain x xs where x: "m @ rest = x # xs"
    using assms(2) by (cases m) auto
  have mt: "matcher [Rx r] (x # xs) p Map.empty = Some (c, rest)"
    using assms(1) x by simp
  have len: "length (x # xs) - length rest = length m"
    using arg_cong [OF x, of length] by simp
  have e: "rx_exec r p (x # xs) = Some (0, length m, c)"
    using mt len by simp
  have tk: "take (length m) (x # xs) = m" and dr: "drop (length m) (x # xs) = rest"
    using x by (metis append_eq_conv_conj)+
  have "segments r p (x # xs) = Gap [] # Hit m c # segments r (Some (last m)) rest"
    using e assms(2) tk dr by (simp del: take_Suc_Cons drop_Suc_Cons)
  then have "scan r f p (x # xs) = f m c @ scan r f (Some (last m)) rest"
    by (simp add: scan_def)
  then show ?thesis
    using assms(2) x by (simp add: prevAfter_def)
qed

lemma scan_skip_run:
  assumes "\<And>u x v. w = u @ x # v \<Longrightarrow> matcher [Rx r] (x # v @ s) (prevAfter p u) Map.empty = None"
  shows "scan r f p (w @ s) = w @ scan r f (prevAfter p w) s"
  using assms
proof (induction w arbitrary: p)
  case Nil
  then show ?case by simp
next
  case (Cons a w)
  have "matcher [Rx r] (a # w @ s) p Map.empty = None"
    using Cons.prems [of "[]" a w] by simp
  then have 1: "scan r f p (a # w @ s) = a # scan r f (Some a) (w @ s)"
    by (rule scan_skip)
  have "scan r f (Some a) (w @ s) = w @ scan r f (prevAfter (Some a) w) s"
  proof (rule Cons.IH)
    fix u x v
    assume "w = u @ x # v"
    then have "a # w = (a # u) @ x # v"
      by simp
    from Cons.prems [OF this] show "matcher [Rx r] (x # v @ s) (prevAfter (Some a) u) Map.empty = None"
      by simp
  qed
  with 1 show ?case
    by simp
qed

section \<open>Deterministic runs\<close>

lemma Star_runR:
  assumes "\<forall>x\<in>set u. in_class cl x" "v = [] \<or> \<not> in_class cl (hd v)" "rejects cl k"
  shows "matcher (Rx (Star cl) # k) (u @ v) p c = matcher k v (prevAfter p u) c"
  using assms by (intro Star_run) (auto simp: rejects_def)

lemma Plus_runR:
  assumes "u \<noteq> []" "\<forall>x\<in>set u. in_class cl x" "v = [] \<or> \<not> in_class cl (hd v)" "rejects cl k"
  shows "matcher (Rx (Plus cl) # k) (u @ v) p c = matcher k v (prevAfter p u) c"
  using assms by (intro Plus_run) (auto simp: rejects_def)

lemma EndGroup_consumed:
  "matcher (EndGroup n s0 # k) s p c = matcher k s p (c(n \<mapsto> consumed s0 s))"
  by (simp add: consumed_def)

lemma consumed_same [simp]: "consumed s s = []"
  by (simp add: consumed_def)

lemma consumed_Cons [simp]:
  "length s \<le> length v \<Longrightarrow> consumed (x # v) s = x # consumed v s"
  by (simp add: consumed_def Suc_diff_le)

lemma consumed_append [simp]:
  "length s \<le> length v \<Longrightarrow> consumed (u @ v) s = u @ consumed v s"
  by (simp add: consumed_def)

lemma Star_stop:
  "s = [] \<or> \<not> in_class cl (hd s) \<Longrightarrow> matcher (Rx (Star cl) # k) s p c = matcher k s p c"
  by (cases s) auto

lemma rejects_Lit: "\<not> in_class cl x \<Longrightarrow> rejects cl (Rx (Lit (x # w)) # k)"
  by (auto simp: rejects_def)

lemma rejects_seq:
  "rejects cl (Rx r # Rx (seq (r' # rs)) # k) \<Longrightarrow> rejects cl (Rx (seq (r # r' # rs)) # k)"
  by (simp add: rejects_def)

lemma rejects_Plus: "\<forall>y. in_class cl y \<longrightarrow> \<not> in_class cl' y \<Longrightarrow> rejects cl (Rx (Plus cl') # k)"
  by (auto simp: rejects_def)

lemma rejects_Star:
  "\<forall>y. in_class cl y \<longrightarrow> \<not> in_class cl' y \<Longrightarrow> rejects cl k \<Longrightarrow> rejects cl (Rx (Star cl') # k)"
  by (auto simp: rejects_def)

lemma rejects_EndGroup: "rejects cl k \<Longrightarrow> rejects cl (EndGroup n s0 # k)"
  by (auto simp: rejects_def)

lemma rejects_Group: "\<forall>s0. rejects cl (Rx r # EndGroup n s0 # k) \<Longrightarrow> rejects cl (Rx (Group n r) # k)"
  by (auto simp: rejects_def)

lemmas rejects_intros = rejects_Lit rejects_seq rejects_Plus rejects_Star rejects_EndGroup rejects_Group

lemma isWord_not_space: "isWord x \<Longrightarrow> \<not> isSpace x"
  by (auto simp: isWord_def isSpace_def Let_def)

lemma nonword_chars [simp]:
  "\<not> isWord (CHR 0x22)" "\<not> isWord CHR '' ''" "\<not> isWord CHR ''{''" "\<not> isWord CHR ''\<newline>''"
  by (simp_all add: isWord_def)

lemma space_chars [simp]:
  "isSpace CHR '' ''" "isSpace CHR ''\<newline>''" "\<not> isSpace CHR ''p''" "\<not> isSpace CHR ''{''"
  "\<not> isSpace CHR ''[''" "\<not> isSpace CHR ''=''" "\<not> isSpace CHR ''g''" "\<not> isSpace CHR ''s''"
  "\<not> isSpace CHR ''}''" "\<not> isSpace CHR '';''"
  by (simp_all add: isSpace_def)

lemma hd_all: "u \<noteq> [] \<Longrightarrow> \<forall>x\<in>set u. P x \<Longrightarrow> P (hd u)"
  by (cases u) auto

section \<open>Collecting matches and lazy repetition\<close>

lemma collect_Nil:
  "matcher [Rx r] [] p Map.empty = None \<Longrightarrow> collect r p [] = []"
  by (simp add: collect_def)

lemma collect_skip:
  assumes "matcher [Rx r] (x # xs) p Map.empty = None"
  shows "collect r p (x # xs) = collect r (Some x) xs"
proof (cases "rx_exec r (Some x) xs")
  case None
  then have "rx_exec r p (x # xs) = None"
    using assms by simp
  moreover have "collect r (Some x) xs = []"
    using None by (cases xs) (simp_all add: collect_def)
  ultimately show ?thesis
    by (simp add: collect_def)
next
  case (Some t)
  obtain i n c where t: "t = (i, n, c)"
    by (cases t) auto
  have e: "rx_exec r p (x # xs) = Some (Suc i, n, c)"
    using assms Some t by simp
  show ?thesis
  proof (cases xs)
    case Nil
    with Some t have "i = 0" "n = 0"
      by (auto split: option.splits)
    then show ?thesis
      using e Some t Nil by (simp add: collect_def)
  next
    case (Cons y ys)
    show ?thesis
      using e Some t unfolding Cons collect_def by simp
  qed
qed

lemma collect_hit:
  assumes "matcher [Rx r] (m @ rest) p Map.empty = Some (c, rest)" and "m \<noteq> []"
  shows "collect r p (m @ rest) = (m, c) # collect r (prevAfter p m) rest"
proof -
  obtain x xs where x: "m @ rest = x # xs"
    using assms(2) by (cases m) auto
  have mt: "matcher [Rx r] (x # xs) p Map.empty = Some (c, rest)"
    using assms(1) x by simp
  have len: "length (x # xs) - length rest = length m"
    using arg_cong [OF x, of length] by simp
  have e: "rx_exec r p (x # xs) = Some (0, length m, c)"
    using mt len by simp
  have tk: "take (length m) (x # xs) = m" and dr: "drop (length m) (x # xs) = rest"
    using x by (metis append_eq_conv_conj)+
  have "segments r p (x # xs) = Gap [] # Hit m c # segments r (Some (last m)) rest"
    using e assms(2) tk dr by (simp del: take_Suc_Cons drop_Suc_Cons)
  then have "collect r p (x # xs) = (m, c) # collect r (Some (last m)) rest"
    by (simp add: collect_def)
  then show ?thesis
    using assms(2) x by (simp add: prevAfter_def)
qed

lemma Plus_end:
  assumes "u \<noteq> []" "\<forall>x\<in>set u. in_class cl x" "v = [] \<or> \<not> in_class cl (hd v)"
  shows "matcher [Rx (Plus cl)] (u @ v) p c = Some (c, v)"
  using assms by (intro Plus_first) simp_all

lemma lazy_char:
  "x \<noteq> CHR ''\<newline>'' \<Longrightarrow>
   matcher (Rx (LazyStar AnyChar) # EndGroup n s0 # Rx (Lit (CHR ''\<newline>'' # l)) # k) (x # s) p c
     = matcher (Rx (LazyStar AnyChar) # EndGroup n s0 # Rx (Lit (CHR ''\<newline>'' # l)) # k) s (Some x) c"
  by auto

lemma lazy_newline:
  "y \<noteq> CHR ''}'' \<Longrightarrow>
   matcher (Rx (LazyStar AnyChar) # EndGroup n s0 # Rx (Lit ''\<newline>}'') # k) (CHR ''\<newline>'' # y # s) p c
     = matcher (Rx (LazyStar AnyChar) # EndGroup n s0 # Rx (Lit ''\<newline>}'') # k) (y # s) (Some CHR ''\<newline>'') c"
  by simp

lemma lazy_run:
  "\<forall>x\<in>set w. x \<noteq> CHR ''\<newline>'' \<Longrightarrow>
   matcher (Rx (LazyStar AnyChar) # EndGroup n s0 # Rx (Lit (CHR ''\<newline>'' # l)) # k) (w @ s) p c
     = matcher (Rx (LazyStar AnyChar) # EndGroup n s0 # Rx (Lit (CHR ''\<newline>'' # l)) # k) s (prevAfter p w) c"
proof (induction w arbitrary: p)
  case Nil
  then show ?case by simp
next
  case (Cons a w)
  then have a: "a \<noteq> CHR ''\<newline>''" and w: "\<forall>x\<in>set w. x \<noteq> CHR ''\<newline>''"
    by simp_all
  let ?K = "Rx (LazyStar AnyChar) # EndGroup n s0 # Rx (Lit (CHR ''\<newline>'' # l)) # k"
  have "matcher ?K (a # (w @ s)) p c = matcher ?K (w @ s) (Some a) c"
    using a by (rule lazy_char)
  also have "\<dots> = matcher ?K s (prevAfter (Some a) w) c"
    by (rule Cons.IH [OF w])
  finally show ?case
    by simp
qed

section \<open>Redundant-attribute elimination\<close>

lemma redundant_match_shape:
  assumes "matcher [Rx redundantAttrRegex] s p Map.empty = Some (c, rest)"
  shows "\<exists>ind a key line name.
           s = ind @ ''['' @ a @ ''(\"'' @ key @ ''\")]\<newline>'' @ line @ rest
         \<and> atLineStart p
         \<and> (\<forall>x\<in>set ind. in_class Blank x)
         \<and> (a = ''JsonPropertyName'' \<or> a = ''JsonProperty'')
         \<and> key \<noteq> [] \<and> (\<forall>x\<in>set key. isWord x)
         \<and> name \<noteq> [] \<and> (\<forall>x\<in>set name. isWord x)
         \<and> c 1 = Some key \<and> c 2 = Some line \<and> c 3 = Some name"
proof -
  let ?K1 = \<open>[Rx (seq [Lit ''("'', Group 1 (Plus Word), Lit ''")]\<newline>'',
     Group 2 (seq [Star Blank, Lit ''public'', Plus Space, Plus NonSpace, Plus Space,
       Group 3 (Plus Word), Star Space, Lit ''{''])])]\<close>
  from assms have ls: "atLineStart p"
    and m0: \<open>matcher (Rx (Star Blank) # [Rx (seq [Lit ''['', attrName, Lit ''("'',
     Group 1 (Plus Word), Lit ''")]\<newline>'',
     Group 2 (seq [Star Blank, Lit ''public'', Plus Space, Plus NonSpace, Plus Space,
       Group 3 (Plus Word), Star Space, Lit ''{''])])]) s p Map.empty = Some (c, rest)\<close>
    by (auto simp: redundantAttrRegex_def split: if_splits)
  from Star_inv [OF m0] obtain ind v0 where s0: "s = ind @ v0" "\<forall>x\<in>set ind. in_class Blank x"
    and m1: \<open>matcher [Rx (seq [Lit ''['', attrName, Lit ''("'',
     Group 1 (Plus Word), Lit ''")]\<newline>'',
     Group 2 (seq [Star Blank, Lit ''public'', Plus Space, Plus NonSpace, Plus Space,
       Group 3 (Plus Word), Star Space, Lit ''{''])])] v0 (prevAfter p ind) Map.empty = Some (c, rest)\<close>
    by blast
  from m1 have \<open>matcher (Rx (Lit ''['') # [Rx (seq [attrName, Lit ''("'',
     Group 1 (Plus Word), Lit ''")]\<newline>'',
     Group 2 (seq [Star Blank, Lit ''public'', Plus Space, Plus NonSpace, Plus Space,
       Group 3 (Plus Word), Star Space, Lit ''{''])])])
      v0 (prevAfter p ind) Map.empty = Some (c, rest)\<close>
    by simp
  from Lit_inv [OF this] obtain v1 p1 where s1: \<open>v0 = ''['' @ v1\<close>
    and m2': \<open>matcher [Rx (seq [attrName, Lit ''("'',
     Group 1 (Plus Word), Lit ''")]\<newline>'',
     Group 2 (seq [Star Blank, Lit ''public'', Plus Space, Plus NonSpace, Plus Space,
       Group 3 (Plus Word), Star Space, Lit ''{''])])]
      v1 p1 Map.empty = Some (c, rest)\<close>
    by blast
  from m2' have m2: \<open>matcher (Rx (Alt (Lit ''JsonPropertyName'') (Lit ''JsonProperty'')) # ?K1)
      v1 p1 Map.empty = Some (c, rest)\<close>
    by (simp add: attrName_def)
  from Alt_inv [OF m2] obtain a where a: \<open>a = ''JsonPropertyName'' \<or> a = ''JsonProperty''\<close>
    and m3: \<open>matcher (Rx (Lit a) # ?K1) v1 p1 Map.empty = Some (c, rest)\<close>
    by blast
  from Lit_inv [OF m3] obtain v2 p2 where s2: \<open>v1 = a @ v2\<close>
    and m4: \<open>matcher ?K1 v2 p2 Map.empty = Some (c, rest)\<close>
    by blast
  let ?G2 = \<open>Group 2 (seq [Star Blank, Lit ''public'', Plus Space, Plus NonSpace, Plus Space,
       Group 3 (Plus Word), Star Space, Lit ''{''])\<close>
  from m4 have \<open>matcher (Rx (Lit ''("'') # [Rx (seq [Group 1 (Plus Word), Lit ''")]\<newline>'', ?G2])])
      v2 p2 Map.empty = Some (c, rest)\<close>
    by simp
  from Lit_inv [OF this] obtain v3 p3 where s3: \<open>v2 = ''("'' @ v3\<close>
    and m5: \<open>matcher [Rx (seq [Group 1 (Plus Word), Lit ''")]\<newline>'', ?G2])] v3 p3 Map.empty
       = Some (c, rest)\<close>
    by blast
  from m5 have \<open>matcher (Rx (Plus Word) # EndGroup 1 v3 # [Rx (seq [Lit ''")]\<newline>'', ?G2])])
      v3 p3 Map.empty = Some (c, rest)\<close>
    by simp
  from Plus_inv [OF this] obtain key v4 p4 where s4: "v3 = key @ v4" "key \<noteq> []"
      "\<forall>x\<in>set key. in_class Word x"
    and m6: \<open>matcher (EndGroup 1 v3 # [Rx (seq [Lit ''")]\<newline>'', ?G2])]) v4 p4 Map.empty
       = Some (c, rest)\<close>
    by blast
  let ?c1 = "Map.empty(1 \<mapsto> key)"
  from m6 have \<open>matcher (Rx (Lit ''")]\<newline>'') # [Rx ?G2]) v4 p4 ?c1 = Some (c, rest)\<close>
    using s4(1) by simp
  from Lit_inv [OF this] obtain v5 p5 where s5: \<open>v4 = ''")]\<newline>'' @ v5\<close>
    and m7: \<open>matcher [Rx ?G2] v5 p5 ?c1 = Some (c, rest)\<close>
    by blast
  from m7 have \<open>matcher (Rx (Star Blank) # [Rx (seq [Lit ''public'', Plus Space, Plus NonSpace,
       Plus Space, Group 3 (Plus Word), Star Space, Lit ''{'']), EndGroup 2 v5]) v5 p5 ?c1
       = Some (c, rest)\<close>
    by simp
  from Star_inv [OF this] obtain b1 w1 q1 where t1: "v5 = b1 @ w1"
    and n1: \<open>matcher [Rx (seq [Lit ''public'', Plus Space, Plus NonSpace,
       Plus Space, Group 3 (Plus Word), Star Space, Lit ''{'']), EndGroup 2 v5] w1 q1 ?c1
       = Some (c, rest)\<close>
    by blast
  from n1 have \<open>matcher (Rx (Lit ''public'') # [Rx (seq [Plus Space, Plus NonSpace,
       Plus Space, Group 3 (Plus Word), Star Space, Lit ''{'']), EndGroup 2 v5]) w1 q1 ?c1
       = Some (c, rest)\<close>
    by simp
  from Lit_inv [OF this] obtain w2 q2 where t2: \<open>w1 = ''public'' @ w2\<close>
    and n2: \<open>matcher [Rx (seq [Plus Space, Plus NonSpace,
       Plus Space, Group 3 (Plus Word), Star Space, Lit ''{'']), EndGroup 2 v5] w2 q2 ?c1
       = Some (c, rest)\<close>
    by blast
  from n2 have \<open>matcher (Rx (Plus Space) # [Rx (seq [Plus NonSpace,
       Plus Space, Group 3 (Plus Word), Star Space, Lit ''{'']), EndGroup 2 v5]) w2 q2 ?c1
       = Some (c, rest)\<close>
    by simp
  from Plus_inv [OF this] obtain b3 w3 q3 where t3: "w2 = b3 @ w3"
    and n3: \<open>matcher [Rx (seq [Plus NonSpace,
       Plus Space, Group 3 (Plus Word), Star Space, Lit ''{'']), EndGroup 2 v5] w3 q3 ?c1
       = Some (c, rest)\<close>
    by blast
  from n3 have \<open>matcher (Rx (Plus NonSpace) # [Rx (seq [
       Plus Space, Group 3 (Plus Word), Star Space, Lit ''{'']), EndGroup 2 v5]) w3 q3 ?c1
       = Some (c, rest)\<close>
    by simp
  from Plus_inv [OF this] obtain b4 w4 q4 where t4: "w3 = b4 @ w4"
    and n4: \<open>matcher [Rx (seq [
       Plus Space, Group 3 (Plus Word), Star Space, Lit ''{'']), EndGroup 2 v5] w4 q4 ?c1
       = Some (c, rest)\<close>
    by blast
  from n4 have \<open>matcher (Rx (Plus Space) # [Rx (seq [Group 3 (Plus Word), Star Space, Lit ''{'']),
       EndGroup 2 v5]) w4 q4 ?c1 = Some (c, rest)\<close>
    by simp
  from Plus_inv [OF this] obtain b5 w5 q5 where t5: "w4 = b5 @ w5"
    and n5: \<open>matcher [Rx (seq [Group 3 (Plus Word), Star Space, Lit ''{'']),
       EndGroup 2 v5] w5 q5 ?c1 = Some (c, rest)\<close>
    by blast
  from n5 have \<open>matcher (Rx (Plus Word) # EndGroup 3 w5 # [Rx (seq [Star Space, Lit ''{'']),
       EndGroup 2 v5]) w5 q5 ?c1 = Some (c, rest)\<close>
    by simp
  from Plus_inv [OF this] obtain name w6 q6 where t6: "w5 = name @ w6" "name \<noteq> []"
      "\<forall>x\<in>set name. in_class Word x"
    and n6: \<open>matcher (EndGroup 3 w5 # [Rx (seq [Star Space, Lit ''{'']),
       EndGroup 2 v5]) w6 q6 ?c1 = Some (c, rest)\<close>
    by blast
  let ?c3 = "Map.empty(1 \<mapsto> key, 3 \<mapsto> name)"
  from n6 have \<open>matcher (Rx (Star Space) # [Rx (Lit ''{''), EndGroup 2 v5]) w6 q6 ?c3
       = Some (c, rest)\<close>
    using t6(1) by simp
  from Star_inv [OF this] obtain b7 w7 q7 where t7: "w6 = b7 @ w7"
    and n7: \<open>matcher (Rx (Lit ''{'') # [EndGroup 2 v5]) w7 q7 ?c3 = Some (c, rest)\<close>
    by blast
  from Lit_inv [OF n7] obtain w8 q8 where t8: \<open>w7 = ''{'' @ w8\<close>
    and n8: \<open>matcher [EndGroup 2 v5] w8 q8 ?c3 = Some (c, rest)\<close>
    by blast
  from n8 have r: "rest = w8" and c: "c = ?c3(2 \<mapsto> take (length v5 - length w8) v5)"
    by auto
  let ?line = \<open>b1 @ ''public'' @ b3 @ b4 @ b5 @ name @ b7 @ ''{''\<close>
  have v5: "v5 = ?line @ rest"
    using t1 t2 t3 t4 t5 t6(1) t7 t8 r by simp
  have c2: "c 2 = Some ?line"
    unfolding c v5 r [symmetric] by (simp only: take_consumed fun_upd_same)
  have "s = ind @ ''['' @ a @ ''(\"'' @ key @ ''\")]\<newline>'' @ ?line @ rest"
    using s0(1) s1 s2 s3 s4(1) s5 v5 by simp
  moreover have "c 1 = Some key" "c 3 = Some name"
    unfolding c by simp_all
  ultimately show ?thesis
    using ls s0(2) a s4(2,3) t6(2,3) c2 by (intro exI [of _ ind] exI [of _ a] exI [of _ key] exI [of _ ?line] exI [of _ name]) simp
qed

lemma attrName_run:
  assumes "a = ''JsonPropertyName'' \<or> a = ''JsonProperty''"
  shows "matcher (Rx attrName # Rx (seq (Lit (CHR ''('' # w) # r # rs)) # k) (a @ CHR ''('' # t) p c
       = matcher (Rx (seq (Lit (CHR ''('' # w) # r # rs)) # k) (CHR ''('' # t) (Some (last a)) c"
  using assms by (auto simp: attrName_def split: option.splits)

lemma redundant_match:
  assumes ind1: "\<forall>x\<in>set ind1. in_class Blank x"
    and ind2: "\<forall>x\<in>set ind2. in_class Blank x"
    and a: "a = ''JsonPropertyName'' \<or> a = ''JsonProperty''"
    and key: "key \<noteq> []" "\<forall>x\<in>set key. isWord x"
    and ty: "ty \<noteq> []" "\<forall>x\<in>set ty. \<not> isSpace x"
    and name: "name \<noteq> []" "\<forall>x\<in>set name. isWord x"
    and p: "atLineStart p"
  shows \<open>matcher [Rx redundantAttrRegex]
      (ind1 @ ''['' @ a @ ''("'' @ key @ ''")]\<newline>'' @ ind2 @ ''public '' @ ty @ '' '' @ name @ '' {'' @ rest)
      p Map.empty
    = Some ([1 \<mapsto> key, 3 \<mapsto> name, 2 \<mapsto> ind2 @ ''public '' @ ty @ '' '' @ name @ '' {''], rest)\<close>
proof -
  have h: "\<not> isSpace (hd ty)" "isWord (hd name)" "\<not> isSpace (hd name)"
    using ty name by (auto simp: hd_all isWord_not_space)
  show ?thesis
    using assms h
    by (simp add: redundantAttrRegex_def Star_runR Plus_runR Star_stop attrName_run rejects_intros
        isWord_not_space EndGroup_consumed del: matcher.simps(2))
qed

lemma not_line_start:
  "\<not> atLineStart p \<Longrightarrow> matcher [Rx redundantAttrRegex] s p Map.empty = None"
  by (simp add: redundantAttrRegex_def)

lemma blank_split:
  "\<forall>x\<in>set (takeWhile (in_class Blank) l). in_class Blank x"
  "dropWhile (in_class Blank) l = [] \<or> \<not> in_class Blank (hd (dropWhile (in_class Blank) l))"
  using hd_dropWhile [of "in_class Blank" l] by (auto dest: set_takeWhileD)

lemma lit_after_quote:
  assumes "CHR ''\<newline>'' \<notin> set d"
  shows \<open>matcher (Rx (Lit '')]\<newline>'') # k) (d @ CHR 0x22 # t) p c = None\<close>
proof (cases d)
  case Nil
  then show ?thesis by simp
next
  case d1: (Cons c1 d1)
  show ?thesis
  proof (cases d1)
    case Nil
    then show ?thesis using d1 by simp
  next
    case d2: (Cons c2 d2)
    show ?thesis
    proof (cases d2)
      case Nil
      then show ?thesis using d1 d2 by simp
    next
      case (Cons c3 d3)
      then show ?thesis using d1 d2 assms by auto
    qed
  qed
qed

lemma word_split:
  "\<forall>x\<in>set (takeWhile isWord key). in_class Word x"
  "dropWhile isWord key = [] \<or> \<not> isWord (hd (dropWhile isWord key))"
  using hd_dropWhile [of isWord key] by (auto dest: set_takeWhileD)

lemma redundant_nomatch_key:
  assumes ind1: "\<forall>x\<in>set ind1. in_class Blank x"
    and a: "a = ''JsonPropertyName'' \<or> a = ''JsonProperty''"
    and nk: "\<not> (key \<noteq> [] \<and> (\<forall>x\<in>set key. isWord x))"
    and nl: "CHR ''\<newline>'' \<notin> set key"
  shows \<open>matcher [Rx redundantAttrRegex] (ind1 @ ''['' @ a @ ''("'' @ key @ ''")]'' @ t) p Map.empty = None\<close>
proof (cases "atLineStart p")
  case False
  then show ?thesis by (rule not_line_start)
next
  case True
  define w where "w = takeWhile isWord key"
  define d where "d = dropWhile isWord key"
  let ?G2 = \<open>Group 2 (seq [Star Blank, Lit ''public'', Plus Space, Plus NonSpace, Plus Space,
       Group 3 (Plus Word), Star Space, Lit ''{''])\<close>
  let ?K = \<open>[Rx (seq [Lit ''")]\<newline>'', ?G2])]\<close>
  have key: "key = w @ d"
    by (simp add: w_def d_def)
  have w: "\<forall>x\<in>set w. in_class Word x"
    unfolding w_def by (rule word_split)
  have d: "d = [] \<or> \<not> isWord (hd d)"
    unfolding d_def by (rule word_split)
  have 1: \<open>matcher [Rx redundantAttrRegex] (ind1 @ ''['' @ a @ ''("'' @ key @ ''")]'' @ t) p Map.empty
      = matcher (Rx (Plus Word) # EndGroup 1 (key @ ''")]'' @ t) # ?K) (key @ ''")]'' @ t)
          (Some (CHR 0x22)) Map.empty\<close>
    using True ind1 a
    by (simp add: redundantAttrRegex_def Star_runR attrName_run rejects_intros)
  have 2: \<open>matcher (Rx (Plus Word) # EndGroup 1 s0 # ?K) (key @ ''")]'' @ t) q c = None\<close> for s0 q c
  proof (cases d)
    case Nil
    then have "key = []"
      using nk key w by auto
    then show ?thesis by simp
  next
    case (Cons x d1)
    then have x: "\<not> isWord x"
      using d by simp
    have nl1: "CHR ''\<newline>'' \<notin> set d1"
      using nl key Cons by simp
    show ?thesis
    proof (cases "w = []")
      case True
      then show ?thesis
        using key Cons x by simp
    next
      case False
      have \<open>matcher (Rx (Plus Word) # EndGroup 1 s0 # ?K) (w @ (x # d1 @ ''")]'' @ t)) q c
          = matcher (EndGroup 1 s0 # ?K) (x # d1 @ ''")]'' @ t) (prevAfter q w) c\<close>
        using False w x by (intro Plus_runR) (simp_all add: rejects_intros)
      also have \<open>\<dots> = None\<close>
      proof (cases "x = CHR 0x22")
        case True
        have \<open>matcher (EndGroup 1 s0 # ?K) (CHR 0x22 # d1 @ ''")]'' @ t) q' c
            = matcher (Rx (Lit '')]\<newline>'') # [Rx ?G2]) (d1 @ CHR 0x22 # '')]'' @ t) (Some (CHR 0x22))
                (c(1 \<mapsto> consumed s0 (CHR 0x22 # d1 @ ''")]'' @ t)))\<close> for q'
          by (simp add: EndGroup_consumed del: matcher.simps(2))
        then show ?thesis
          unfolding True by (simp only: lit_after_quote [OF nl1])
      next
        case False
        then show ?thesis
          by (simp add: EndGroup_consumed del: matcher.simps(2))
      qed
      finally show ?thesis
        using key Cons by simp
    qed
  qed
  show ?thesis
    unfolding 1 by (rule 2)
qed

lemma scan_end: "scan redundantAttrRegex f p [] = []"
  by (rule scan_Nil) (simp add: redundantAttrRegex_def)

lemma scan_newline:
  "scan redundantAttrRegex f p (CHR ''\<newline>'' # s) = CHR ''\<newline>'' # scan redundantAttrRegex f (Some CHR ''\<newline>'') s"
  by (rule scan_skip) (simp add: redundantAttrRegex_def)

lemma scan_inline:
  assumes "\<not> atLineStart p" "\<forall>x\<in>set w. \<not> isLineTerminator x"
  shows "scan redundantAttrRegex f p (w @ s) = w @ scan redundantAttrRegex f (prevAfter p w) s"
proof (rule scan_skip_run)
  fix u x v
  assume w: "w = u @ x # v"
  have "\<not> atLineStart (prevAfter p u)"
  proof (cases "u = []")
    case True
    then show ?thesis using assms(1) by simp
  next
    case False
    then have "last u \<in> set w"
      using w by simp
    then show ?thesis
      using False assms(2) by (simp add: prevAfter_def atLineStart_def)
  qed
  then show "matcher [Rx redundantAttrRegex] (x # v @ s) (prevAfter p u) Map.empty = None"
    by (rule not_line_start)
qed

lemma scan_line:
  assumes "matcher [Rx redundantAttrRegex] (l @ t) p Map.empty = None"
    and "\<forall>x\<in>set l. \<not> isLineTerminator x"
  shows "scan redundantAttrRegex f p (l @ t) = l @ scan redundantAttrRegex f (prevAfter p l) t"
proof (cases l)
  case Nil
  then show ?thesis by simp
next
  case (Cons x l1)
  have "scan redundantAttrRegex f p (x # l1 @ t) = x # scan redundantAttrRegex f (Some x) (l1 @ t)"
    using assms(1) Cons by (intro scan_skip) simp
  moreover have "scan redundantAttrRegex f (Some x) (l1 @ t)
      = l1 @ scan redundantAttrRegex f (prevAfter (Some x) l1) t"
    using assms(2) Cons by (intro scan_inline) (simp_all add: atLineStart_def)
  ultimately show ?thesis
    using Cons by simp
qed


lemma dropWhile_blank_public:
  assumes "\<forall>x\<in>set i. in_class Blank x"
  shows "dropWhile (in_class Blank) (i @ CHR ''p'' # r) = CHR ''p'' # r"
  using assms by (induction i) auto

lemma not_LT_simps [simp]:
  "\<not> isLineTerminator CHR 0x22" "\<not> isLineTerminator CHR ''(''" "\<not> isLineTerminator CHR '')''"
  "\<not> isLineTerminator CHR ''[''" "\<not> isLineTerminator CHR '']''" "\<not> isLineTerminator CHR ''{''"
  "\<not> isLineTerminator CHR '' ''" "isLineTerminator CHR ''\<newline>''"
  by (simp_all add: isLineTerminator_def)

lemma blank_not_LT: "in_class Blank x \<Longrightarrow> \<not> isLineTerminator x"
  by (auto simp: isLineTerminator_def)

lemma nonspace_not_LT: "\<not> isSpace x \<Longrightarrow> \<not> isLineTerminator x"
  by (auto simp: isLineTerminator_def isSpace_def)

lemma word_not_LT: "isWord x \<Longrightarrow> \<not> isLineTerminator x"
  by (auto simp: isLineTerminator_def isWord_def)


lemma dropWhile_blank_stop:
  assumes "\<forall>x\<in>set i. in_class Blank x" "\<not> in_class Blank y"
  shows "dropWhile (in_class Blank) (i @ y # r) = y # r"
  using assms by (induction i) auto

lemma keyAttributeLine_shape:
  assumes "\<forall>x\<in>set ind. in_class Blank x"
    and "a = ''JsonPropertyName'' \<or> a = ''JsonProperty''"
    and "key \<noteq> []" "\<forall>x\<in>set key. isWord x"
  shows \<open>keyAttributeLine (ind @ ''['' @ a @ ''("'' @ key @ ''")]'')\<close>
proof -
  have d: \<open>dropWhile (in_class Blank) (ind @ CHR ''['' # a @ ''("'' @ key @ ''")]'')
      = CHR ''['' # a @ ''("'' @ key @ ''")]''\<close>
    using assms(1) by (rule dropWhile_blank_stop) simp
  have tw: \<open>takeWhile isWord (key @ ''")]'') = key\<close>
    using assms(4) by (simp add: takeWhile_append2)
  have dw: \<open>dropWhile isWord (key @ ''")]'') = ''")]''\<close>
    using assms(4) by (simp add: dropWhile_append2)
  show ?thesis
    using assms(2,3) d tw dw
    by (auto simp: keyAttributeLine_def startsWith_def Let_def)
qed


lemma first_newline:
  assumes "u @ CHR ''\<newline>'' # v = u' @ CHR ''\<newline>'' # v'"
    and "CHR ''\<newline>'' \<notin> set u" "CHR ''\<newline>'' \<notin> set u'"
  shows "u = u'"
proof -
  have "takeWhile (\<lambda>x. x \<noteq> CHR ''\<newline>'') (u @ CHR ''\<newline>'' # v) = u"
    using assms(2) by (auto simp: takeWhile_tail)
  moreover have "takeWhile (\<lambda>x. x \<noteq> CHR ''\<newline>'') (u' @ CHR ''\<newline>'' # v') = u'"
    using assms(3) by (auto simp: takeWhile_tail)
  ultimately show ?thesis
    using assms(1) by simp
qed

lemma plain_nomatch:
  assumes pl: "plainLine l" and t: "t = [] \<or> hd t = CHR ''\<newline>''"
  shows "matcher [Rx redundantAttrRegex] (l @ t) p Map.empty = None"
proof (cases "matcher [Rx redundantAttrRegex] (l @ t) p Map.empty")
  case None
  then show ?thesis .
next
  case (Some cr)
  obtain c rest where cr: "cr = (c, rest)"
    by (cases cr) auto
  note m = Some [unfolded cr]
  from redundant_match_shape [OF m] obtain ind a key line name where
    s: \<open>l @ t = ind @ ''['' @ a @ ''("'' @ key @ ''")]\<newline>'' @ line @ rest\<close>
    and ind: "\<forall>x\<in>set ind. in_class Blank x"
    and a: "a = ''JsonPropertyName'' \<or> a = ''JsonProperty''"
    and key: "key \<noteq> []" "\<forall>x\<in>set key. isWord x"
    by (elim exE conjE)
  define A where \<open>A = ind @ ''['' @ a @ ''("'' @ key @ ''")]''\<close>
  have s': \<open>l @ t = A @ CHR ''\<newline>'' # (line @ rest)\<close>
    using s by (simp add: A_def)
  have nl: "CHR ''\<newline>'' \<notin> set l"
    using pl not_LT_simps(8) unfolding plainLine_def list_all_iff by blast
  have 1: "CHR ''\<newline>'' \<notin> set ind"
    using ind blank_not_LT not_LT_simps(8) by blast
  have 2: "CHR ''\<newline>'' \<notin> set a"
    using a by (elim disjE) simp_all
  have 3: "CHR ''\<newline>'' \<notin> set key"
    using key(2) word_not_LT not_LT_simps(8) by blast
  have nA: "CHR ''\<newline>'' \<notin> set A"
    using 1 2 3 by (simp add: A_def)
  have "l = A"
  proof (cases t)
    case Nil
    then have "l = A @ CHR ''\<newline>'' # (line @ rest)"
      using s' by simp
    then have "CHR ''\<newline>'' \<in> set l"
      by simp
    then show ?thesis
      using nl by simp
  next
    case (Cons y t')
    then have "l @ CHR ''\<newline>'' # t' = A @ CHR ''\<newline>'' # (line @ rest)"
      using s' t by simp
    then show ?thesis
      using nl nA by (rule first_newline)
  qed
  moreover have "keyAttributeLine A"
    unfolding A_def using ind a key by (rule keyAttributeLine_shape)
  ultimately have "keyAttributeLine l"
    by simp
  then show ?thesis
    using pl by (simp add: plainLine_def)
qed

lemma Lit_hd_fail:
  "s = [] \<or> hd s \<noteq> x \<Longrightarrow> matcher (Rx (Lit (x # w)) # k) s p c = None"
  by (cases s) auto

lemma space_split:
  "\<forall>x\<in>set (takeWhile isSpace l). in_class Space x"
  "dropWhile isSpace l = [] \<or> \<not> isSpace (hd (dropWhile isSpace l))"
  using hd_dropWhile [of isSpace l] by (auto dest: set_takeWhileD)

lemma nonspace_split:
  "\<forall>x\<in>set (takeWhile (\<lambda>x. \<not> isSpace x) l). in_class NonSpace x"
  "dropWhile (\<lambda>x. \<not> isSpace x) l = [] \<or> isSpace (hd (dropWhile (\<lambda>x. \<not> isSpace x) l))"
  using hd_dropWhile [of "\<lambda>x. \<not> isSpace x" l] by (auto dest: set_takeWhileD)

lemma decl_tail_fail:
  assumes r2: "r2 \<noteq> []" "\<not> isSpace (last r2)" "\<forall>x\<in>set r2. x \<noteq> CHR ''{''"
    and name: "name \<noteq> []" "\<forall>x\<in>set name. isWord x"
  shows \<open>matcher (Rx (seq [Group 3 (Plus Word), Star Space, Lit ''{'']) # k)
     (r2 @ '' '' @ name @ rest) q c = None\<close>
proof -
  define w where "w = takeWhile isWord r2"
  define r3 where "r3 = dropWhile isWord r2"
  have r2eq: "r2 = w @ r3"
    by (simp add: w_def r3_def)
  have w: "\<forall>x\<in>set w. in_class Word x"
    unfolding w_def by (rule word_split)
  have r3: "r3 = [] \<or> \<not> isWord (hd r3)"
    unfolding r3_def by (rule word_split)
  have r3set: "\<forall>x\<in>set r3. x \<noteq> CHR ''{''"
    using r2(3) r2eq by auto
  have hn: "isWord (hd name)" "\<not> isSpace (hd name)"
    using name by (auto simp: hd_all isWord_not_space)
  have hb: "hd name \<noteq> CHR ''{''"
    using hn(1) nonword_chars(3) by metis
  let ?K = \<open>Rx (seq [Star Space, Lit ''{'']) # k\<close>
  have tail: \<open>matcher (EndGroup 3 s0 # ?K) (r3 @ '' '' @ name @ rest) q' c' = None\<close>
    if "r3 = [] \<or> \<not> isWord (hd r3)" for s0 q' c'
  proof (cases r3)
    case Nil
    then show ?thesis
      using hn hb name
      by (simp add: EndGroup_consumed Star_stop Lit_hd_fail del: matcher.simps(2))
  next
    case (Cons y r3')
    show ?thesis
    proof (cases "isSpace y")
      case False
      have "y \<noteq> CHR ''{''"
        using r3set Cons by simp
      then show ?thesis
        using False Cons
        by (simp add: EndGroup_consumed Star_stop del: matcher.simps(2))
    next
      case True
      define s3 where "s3 = takeWhile isSpace r3"
      define r4 where "r4 = dropWhile isSpace r3"
      have r3eq: "r3 = s3 @ r4"
        by (simp add: s3_def r4_def)
      have s3: "\<forall>x\<in>set s3. in_class Space x"
        unfolding s3_def by (rule space_split)
      have r4: "r4 = [] \<or> \<not> isSpace (hd r4)"
        unfolding r4_def by (rule space_split)
      have "last r3 = last r2"
        using r2eq Cons by simp
      then have "\<not> isSpace (last r3)"
        using r2(2) by simp
      then have r4ne: "r4 \<noteq> []"
        using s3 r3eq Cons by (cases "r4 = []") auto
      have r4h: "\<not> isSpace (hd r4)" "hd r4 \<noteq> CHR ''{''"
        using r4 r4ne r3set r3eq by (auto simp: hd_in_set)
      have \<open>matcher (EndGroup 3 s0 # ?K) (s3 @ (r4 @ '' '' @ name @ rest)) q' c' = None\<close>
        using s3 r4ne r4h
        by (simp add: EndGroup_consumed Star_runR rejects_intros Lit_hd_fail del: matcher.simps(2))
      then show ?thesis
        using r3eq by simp
    qed
  qed
  show ?thesis
  proof (cases "w = []")
    case True
    then have "r3 = r2"
      using r2eq by simp
    then obtain y r where yr: "r2 = y # r" "\<not> isWord y"
      using r3 r2(1) by (cases r2) auto
    then show ?thesis
      by simp
  next
    case False
    have nx: "r3 @ '' '' @ name @ rest = [] \<or> \<not> in_class Word (hd (r3 @ '' '' @ name @ rest))"
      using r3 by (cases r3) auto
    have \<open>matcher (Rx (seq [Group 3 (Plus Word), Star Space, Lit ''{'']) # k)
        (w @ (r3 @ '' '' @ name @ rest)) q c
         = matcher (EndGroup 3 (w @ (r3 @ '' '' @ name @ rest)) # ?K) (r3 @ '' '' @ name @ rest) (prevAfter q w) c\<close>
      using False w nx
      by (simp add: Plus_runR rejects_intros isWord_not_space del: matcher.simps(2))
    also have "\<dots> = None"
      using r3 by (rule tail)
    finally show ?thesis
      using r2eq by simp
  qed
qed

lemma space_not_word: "isSpace x \<Longrightarrow> \<not> isWord x"
  using isWord_not_space by blast

lemma redundant_nomatch_type:
  assumes ind1: "\<forall>x\<in>set ind1. in_class Blank x"
    and ind2: "\<forall>x\<in>set ind2. in_class Blank x"
    and a: "a = ''JsonPropertyName'' \<or> a = ''JsonProperty''"
    and key: "key \<noteq> []" "\<forall>x\<in>set key. isWord x"
    and ty: "ty \<noteq> []" "\<not> isSpace (hd ty)" "\<not> isSpace (last ty)" "\<forall>x\<in>set ty. x \<noteq> CHR ''{''"
    and sp: "\<not> (\<forall>x\<in>set ty. \<not> isSpace x)"
    and name: "name \<noteq> []" "\<forall>x\<in>set name. isWord x"
  shows \<open>matcher [Rx redundantAttrRegex]
      (ind1 @ ''['' @ a @ ''("'' @ key @ ''")]\<newline>'' @ ind2 @ ''public '' @ ty @ '' '' @ name @ rest)
      p Map.empty = None\<close>
proof (cases "atLineStart p")
  case False
  then show ?thesis by (rule not_line_start)
next
  case True
  define tok where "tok = takeWhile (\<lambda>x. \<not> isSpace x) ty"
  define r where "r = dropWhile (\<lambda>x. \<not> isSpace x) ty"
  define s2 where "s2 = takeWhile isSpace r"
  define r2 where "r2 = dropWhile isSpace r"
  have tyeq: "ty = tok @ s2 @ r2"
    by (simp add: tok_def r_def s2_def r2_def)
  have tok: "\<forall>x\<in>set tok. in_class NonSpace x"
    unfolding tok_def by (rule nonspace_split)
  have tokne: "tok \<noteq> []"
    using ty(1,2) unfolding tok_def by (cases ty) auto
  have rne: "r \<noteq> []"
    using sp unfolding r_def by (simp add: dropWhile_eq_Nil_conv)
  then have rh: "isSpace (hd r)"
    using nonspace_split(2) [of ty] unfolding r_def by blast
  have s2: "\<forall>x\<in>set s2. in_class Space x"
    unfolding s2_def by (rule space_split)
  have s2ne: "s2 \<noteq> []"
    using rne rh unfolding s2_def by (cases r) auto
  have r2: "r2 = [] \<or> \<not> isSpace (hd r2)"
    unfolding r2_def by (rule space_split)
  have r2ne: "r2 \<noteq> []"
  proof
    assume "r2 = []"
    then have "ty = tok @ s2"
      using tyeq by simp
    then have "last ty = last s2"
      using s2ne by simp
    then show False
      using ty(3) s2 s2ne last_in_set [of s2] by auto
  qed
  have r2l: "\<not> isSpace (last r2)"
    using ty(3) tyeq r2ne by simp
  have r2b: "\<forall>x\<in>set r2. x \<noteq> CHR ''{''"
    using ty(4) tyeq by auto
  define Z where \<open>Z = r2 @ '' '' @ name @ rest\<close>
  have Zh: "Z \<noteq> []" "\<not> isSpace (hd Z)"
    using r2 r2ne by (simp_all add: Z_def)
  have Zf: \<open>matcher (Rx (seq [Group 3 (Plus Word), Star Space, Lit ''{'']) # k) Z q c = None\<close> for k q c
    unfolding Z_def using r2ne r2l r2b name by (rule decl_tail_fail)
  have h: "\<not> isSpace (hd tok)" "isSpace (hd s2)"
    using tok tokne s2 s2ne by (auto simp: hd_all)
  have \<open>matcher [Rx redundantAttrRegex]
      (ind1 @ ''['' @ a @ ''("'' @ key @ ''")]\<newline>'' @ ind2 @ ''public '' @ tok @ s2 @ Z)
      p Map.empty = None\<close>
    using True ind1 ind2 a key tok tokne s2 s2ne Zh Zf h
    by (simp add: redundantAttrRegex_def Star_runR Plus_runR Star_stop attrName_run rejects_intros
        isWord_not_space space_not_word EndGroup_consumed del: matcher.simps(2))
  then show ?thesis
    using tyeq by (simp add: Z_def)
qed

lemma redundant_nomatch_line:
  assumes ind1: "\<forall>x\<in>set ind1. in_class Blank x"
    and a: "a = ''JsonPropertyName'' \<or> a = ''JsonProperty''"
    and key: "key \<noteq> []" "\<forall>x\<in>set key. isWord x"
    and l: "case dropWhile (in_class Blank) l of [] \<Rightarrow> True | x # _ \<Rightarrow> x \<noteq> CHR ''p''"
    and t: "t = [] \<or> hd t = CHR ''\<newline>''"
  shows \<open>matcher [Rx redundantAttrRegex]
      (ind1 @ ''['' @ a @ ''("'' @ key @ ''")]\<newline>'' @ l @ t) p Map.empty = None\<close>
proof (cases "atLineStart p")
  case False
  then show ?thesis by (rule not_line_start)
next
  case True
  define u where "u = takeWhile (in_class Blank) l"
  define v where "v = dropWhile (in_class Blank) l"
  have leq: "l = u @ v"
    by (simp add: u_def v_def)
  have u: "\<forall>x\<in>set u. in_class Blank x"
    unfolding u_def by (rule blank_split)
  have v: "v = [] \<or> \<not> in_class Blank (hd v)"
    unfolding v_def by (rule blank_split)
  have v': "v = [] \<or> hd v \<noteq> CHR ''p''"
    using l by (cases v) (simp_all add: v_def)
  define Z where "Z = v @ t"
  have Z: "Z = [] \<or> \<not> in_class Blank (hd Z)" "Z = [] \<or> hd Z \<noteq> CHR ''p''"
    using v v' t unfolding Z_def by (cases v; cases t; auto)+
  have \<open>matcher [Rx redundantAttrRegex]
      (ind1 @ ''['' @ a @ ''("'' @ key @ ''")]\<newline>'' @ u @ Z) p Map.empty = None\<close>
    using True ind1 a key u Z
    by (simp add: redundantAttrRegex_def Star_runR Plus_runR Star_stop attrName_run rejects_intros
        isWord_not_space EndGroup_consumed Lit_hd_fail del: matcher.simps(2))
  then show ?thesis
    using leq by (simp add: Z_def)
qed

lemma attr_text_no_LT:
  assumes "\<forall>x\<in>set i. in_class Blank x"
    and "a = ''JsonPropertyName'' \<or> a = ''JsonProperty''"
    and "\<forall>x\<in>set k. \<not> isLineTerminator x"
  shows \<open>\<forall>x\<in>set (i @ ''['' @ a @ ''("'' @ k @ ''")]''). \<not> isLineTerminator x\<close>
proof -
  have 1: "\<forall>x\<in>set i. \<not> isLineTerminator x"
    using assms(1) blank_not_LT by blast
  have 2: "\<forall>x\<in>set a. \<not> isLineTerminator x"
    using assms(2) by (elim disjE) (simp_all add: isLineTerminator_def)
  show ?thesis
    using 1 2 assms(3) by (simp add: ball_Un)
qed

lemma wf_parts:
  assumes "wellFormed (Annotated q)"
  shows "\<forall>x\<in>set (a_indent q). in_class Blank x"
    and "a_attr q = ''JsonPropertyName'' \<or> a_attr q = ''JsonProperty''"
    and "\<forall>x\<in>set (a_key q). \<not> isLineTerminator x"
    and "\<forall>x\<in>set (p_indent q). in_class Blank x"
    and "p_type q \<noteq> []" and "\<not> isSpace (hd (p_type q))" and "\<not> isSpace (last (p_type q))"
    and "\<forall>x\<in>set (p_type q). \<not> isLineTerminator x"
    and "\<forall>x\<in>set (p_type q). x \<noteq> CHR ''{''"
    and "p_name q \<noteq> []" and "\<forall>x\<in>set (p_name q). isWord x"
    and "\<forall>x\<in>set (p_tail q). \<not> isLineTerminator x"
  using assms by (simp_all add: list_all_iff)

lemma attributeLine_no_LT:
  assumes "wellFormed (Annotated q)"
  shows "\<forall>x\<in>set (attributeLine q). \<not> isLineTerminator x"
  unfolding attributeLine_def
  using wf_parts(1,2,3) [OF assms] by (rule attr_text_no_LT)

lemma not_keyAttributeLine_public:
  assumes "\<forall>x\<in>set i. in_class Blank x"
  shows "\<not> keyAttributeLine (i @ CHR ''p'' # r)"
proof -
  have "dropWhile (in_class Blank) (i @ CHR ''p'' # r) = CHR ''p'' # r"
    using assms by (rule dropWhile_blank_public)
  then show ?thesis
    by (simp add: keyAttributeLine_def startsWith_def)
qed

lemma propertyLine_plain:
  assumes "wellFormed (Annotated q)"
  shows "plainLine (propertyLine q)"
proof -
  note w = wf_parts [OF assms]
  have k: "\<not> keyAttributeLine (propertyLine q)"
    unfolding propertyLine_def using not_keyAttributeLine_public [OF w(4)] by simp
  have 1: "\<forall>x\<in>set (p_indent q). \<not> isLineTerminator x"
    using w(4) blank_not_LT by blast
  have 3: "\<forall>x\<in>set (p_name q). \<not> isLineTerminator x"
    using w(11) word_not_LT by blast
  have 5: "\<forall>x\<in>set ''public ''. \<not> isLineTerminator x"
    by (simp add: isLineTerminator_def)
  have "\<forall>x\<in>set (propertyLine q). \<not> isLineTerminator x"
    unfolding propertyLine_def using 1 w(8) 3 w(12) 5 by (simp add: ball_Un)
  then show ?thesis
    using k by (simp add: plainLine_def list_all_iff)
qed

lemma scan_plain:
  assumes "plainLine l" "t = [] \<or> hd t = CHR ''\<newline>''"
  shows "scan redundantAttrRegex f p (l @ t) = l @ scan redundantAttrRegex f (prevAfter p l) t"
  using assms by (intro scan_line plain_nomatch) (simp_all add: plainLine_def list_all_iff)

lemma scan_block_hit:
  assumes wfq: "wellFormed (Annotated q)" and p: "atLineStart p"
    and k: "a_key q \<noteq> []" "\<forall>x\<in>set (a_key q). isWord x"
    and ty: "\<forall>x\<in>set (p_type q). \<not> isSpace x"
  shows "\<exists>p'. scan redundantAttrRegex redundantReplacer p (renderBlock (Annotated q) @ t)
     = renderBlock (eliminate (Annotated q)) @ scan redundantAttrRegex redundantReplacer p' t"
proof -
  let ?R = redundantAttrRegex and ?f = redundantReplacer
  note w = wf_parts [OF wfq]
  define line2 where \<open>line2 = p_indent q @ ''public '' @ p_type q @ '' '' @ p_name q @ '' {''\<close>
  define m where \<open>m = a_indent q @ ''['' @ a_attr q @ ''("'' @ a_key q @ ''")]\<newline>'' @ line2\<close>
  define c :: caps where \<open>c = [1 \<mapsto> a_key q, 3 \<mapsto> p_name q, 2 \<mapsto> line2]\<close>
  define p2 where \<open>p2 = prevAfter (Some CHR ''{'') (p_tail q)\<close>
  have mt: \<open>matcher [Rx ?R] (m @ (p_tail q @ t)) p Map.empty = Some (c, p_tail q @ t)\<close>
    unfolding m_def line2_def c_def
    using redundant_match [OF w(1) w(4) w(2) k w(5) ty w(10) w(11) p, of "p_tail q @ t"]
    by simp
  have mne: "m \<noteq> []"
    by (simp add: m_def)
  have pm: "prevAfter p m = Some CHR ''{''"
    by (simp add: m_def line2_def)
  have s1: "scan ?R ?f p (m @ (p_tail q @ t)) = ?f m c @ scan ?R ?f (Some CHR ''{'') (p_tail q @ t)"
    using scan_hit [OF mt mne, of ?f] pm by simp
  have s2: "scan ?R ?f (Some CHR ''{'') (p_tail q @ t) = p_tail q @ scan ?R ?f p2 t"
    unfolding p2_def using w(12) by (intro scan_inline) (simp_all add: atLineStart_def)
  have fm: "?f m c = (if redundantKey q then line2 else m)"
    using k ty by (simp add: redundantReplacer_def grp_def c_def redundantKey_def list_all_iff)
  have rb: "renderBlock (Annotated q) @ t = m @ (p_tail q @ t)"
    by (simp add: attributeLine_def propertyLine_def m_def line2_def)
  have re: "renderBlock (eliminate (Annotated q)) = (if redundantKey q then line2 else m) @ p_tail q"
    by (simp add: attributeLine_def propertyLine_def m_def line2_def)
  have "scan ?R ?f p (renderBlock (Annotated q) @ t)
      = renderBlock (eliminate (Annotated q)) @ scan ?R ?f p2 t"
    by (simp only: rb s1 s2 fm re append_assoc)
  then show ?thesis
    by blast
qed

lemma scan_two_lines:
  assumes nm: "matcher [Rx redundantAttrRegex] (l1 @ CHR ''\<newline>'' # l2 @ t) p Map.empty = None"
    and l1: "\<forall>x\<in>set l1. \<not> isLineTerminator x"
    and l2: "plainLine l2"
    and t: "t = [] \<or> hd t = CHR ''\<newline>''"
  shows "\<exists>p'. scan redundantAttrRegex f p (l1 @ CHR ''\<newline>'' # l2 @ t)
     = l1 @ CHR ''\<newline>'' # l2 @ scan redundantAttrRegex f p' t"
proof -
  let ?R = redundantAttrRegex
  define t1 where \<open>t1 = CHR ''\<newline>'' # l2 @ t\<close>
  define p1 where \<open>p1 = prevAfter p l1\<close>
  define p2 where \<open>p2 = prevAfter (Some CHR ''\<newline>'') l2\<close>
  have "matcher [Rx ?R] (l1 @ t1) p Map.empty = None"
    using nm by (simp add: t1_def)
  then have s1: "scan ?R f p (l1 @ t1) = l1 @ scan ?R f p1 t1"
    unfolding p1_def using l1 by (intro scan_line)
  have s2: "scan ?R f p1 t1 = CHR ''\<newline>'' # scan ?R f (Some CHR ''\<newline>'') (l2 @ t)"
    unfolding t1_def by (rule scan_newline)
  have s3: "scan ?R f (Some CHR ''\<newline>'') (l2 @ t) = l2 @ scan ?R f p2 t"
    unfolding p2_def using l2 t by (rule scan_plain)
  have "scan ?R f p (l1 @ CHR ''\<newline>'' # l2 @ t) = l1 @ CHR ''\<newline>'' # l2 @ scan ?R f p2 t"
    using s1 s2 s3 by (simp add: t1_def)
  then show ?thesis
    by blast
qed

lemma scan_block_kept:
  assumes wfq: "wellFormed (Annotated q)"
    and t: "t = [] \<or> hd t = CHR ''\<newline>''"
    and k: "\<not> (a_key q \<noteq> [] \<and> (\<forall>x\<in>set (a_key q). isWord x) \<and> (\<forall>x\<in>set (p_type q). \<not> isSpace x))"
  shows "\<exists>p'. scan redundantAttrRegex redundantReplacer p (renderBlock (Annotated q) @ t)
     = renderBlock (eliminate (Annotated q)) @ scan redundantAttrRegex redundantReplacer p' t"
proof -
  let ?R = redundantAttrRegex and ?f = redundantReplacer
  note w = wf_parts [OF wfq]
  have nm: "matcher [Rx ?R] (attributeLine q @ CHR ''\<newline>'' # propertyLine q @ t) p Map.empty = None"
  proof (cases "a_key q \<noteq> [] \<and> (\<forall>x\<in>set (a_key q). isWord x)")
    case False
    have nl: "CHR ''\<newline>'' \<notin> set (a_key q)"
      using w(3) by auto
    show ?thesis
      unfolding attributeLine_def
      using redundant_nomatch_key [OF w(1) w(2) False nl, of "CHR ''\<newline>'' # propertyLine q @ t" p]
      by simp
  next
    case True
    then have sp: "\<not> (\<forall>x\<in>set (p_type q). \<not> isSpace x)"
      using k by simp
    show ?thesis
      unfolding attributeLine_def propertyLine_def
      using redundant_nomatch_type [OF w(1) w(4) w(2) _ _ w(5) w(6) w(7) w(9) sp w(10) w(11),
          of "a_key q" "'' {'' @ p_tail q @ t" p] True
      by simp
  qed
  from scan_two_lines [OF nm attributeLine_no_LT [OF wfq] propertyLine_plain [OF wfq] t, of ?f]
  obtain p' where "scan ?R ?f p (attributeLine q @ CHR ''\<newline>'' # propertyLine q @ t)
     = attributeLine q @ CHR ''\<newline>'' # propertyLine q @ scan ?R ?f p' t"
    by blast
  moreover have "\<not> redundantKey q"
    using k by (auto simp: redundantKey_def list_all_iff)
  ultimately show ?thesis
    by auto
qed

lemma scan_block_loose:
  assumes wf: "wellFormed (Loose i a k l)"
    and t: "t = [] \<or> hd t = CHR ''\<newline>''"
  shows "\<exists>p'. scan redundantAttrRegex redundantReplacer p (renderBlock (Loose i a k l) @ t)
     = renderBlock (Loose i a k l) @ scan redundantAttrRegex redundantReplacer p' t"
proof -
  let ?R = redundantAttrRegex and ?f = redundantReplacer
  have i: "\<forall>x\<in>set i. in_class Blank x"
    and a: "a = ''JsonPropertyName'' \<or> a = ''JsonProperty''"
    and kl: "\<forall>x\<in>set k. \<not> isLineTerminator x"
    and l: "plainLine l"
    and lp: "case dropWhile (in_class Blank) l of [] \<Rightarrow> True | x # _ \<Rightarrow> x \<noteq> CHR ''p''"
    using wf by (simp_all add: list_all_iff)
  define l1 where \<open>l1 = i @ ''['' @ a @ ''("'' @ k @ ''")]''\<close>
  have nm: "matcher [Rx ?R] (l1 @ CHR ''\<newline>'' # l @ t) p Map.empty = None"
  proof (cases "k \<noteq> [] \<and> (\<forall>x\<in>set k. isWord x)")
    case False
    have nl: "CHR ''\<newline>'' \<notin> set k"
      using kl by auto
    show ?thesis
      unfolding l1_def
      using redundant_nomatch_key [OF i a False nl, of "CHR ''\<newline>'' # l @ t" p]
      by simp
  next
    case True
    show ?thesis
      unfolding l1_def
      using redundant_nomatch_line [OF i a _ _ lp t, of k p] True
      by simp
  qed
  have l1n: "\<forall>x\<in>set l1. \<not> isLineTerminator x"
    unfolding l1_def using i a kl by (rule attr_text_no_LT)
  from scan_two_lines [OF nm l1n l t, of ?f]
  show ?thesis
    by (simp add: l1_def)
qed

lemma scan_block:
  assumes wf: "wellFormed b" and p: "atLineStart p" and t: "t = [] \<or> hd t = CHR ''\<newline>''"
  shows "\<exists>p'. scan redundantAttrRegex redundantReplacer p (renderBlock b @ t)
     = renderBlock (eliminate b) @ scan redundantAttrRegex redundantReplacer p' t"
proof (cases b)
  case (Line l)
  have "plainLine l"
    using wf Line by simp
  from scan_plain [OF this t, of redundantReplacer p] show ?thesis
    unfolding Line by (simp only: renderBlock.simps eliminate.simps) blast
next
  case (Annotated q)
  show ?thesis
  proof (cases "a_key q \<noteq> [] \<and> (\<forall>x\<in>set (a_key q). isWord x) \<and> (\<forall>x\<in>set (p_type q). \<not> isSpace x)")
    case True
    then show ?thesis
      unfolding Annotated using scan_block_hit [of q p t] wf p Annotated by blast
  next
    case False
    then show ?thesis
      unfolding Annotated using scan_block_kept [of q t p] wf t Annotated by blast
  qed
next
  case (Loose i a k l)
  then show ?thesis
    using scan_block_loose [of i a k l t p] wf t by (simp only: eliminate.simps)
qed

lemma scan_text:
  assumes "\<forall>b\<in>set bs. wellFormed b" "atLineStart p"
  shows "scan redundantAttrRegex redundantReplacer p (renderText bs) = renderText (map eliminate bs)"
  using assms
proof (induction bs arbitrary: p rule: induct_list012)
  case 1
  then show ?case by (simp add: renderText_def scan_end)
next
  case (2 b)
  have wf: "wellFormed b"
    using 2 by simp
  from scan_block [OF wf 2(2), of "[]"] obtain p' where
    "scan redundantAttrRegex redundantReplacer p (renderBlock b @ [])
      = renderBlock (eliminate b) @ scan redundantAttrRegex redundantReplacer p' []"
    by blast
  then show ?case
    by (simp add: renderText_def scan_end)
next
  case (3 b b' bs)
  define rest where "rest = renderText (b' # bs)"
  have wf: "wellFormed b" and wfs: "\<forall>b\<in>set (b' # bs). wellFormed b"
    using 3(3) by simp_all
  have ih: "scan redundantAttrRegex redundantReplacer (Some CHR ''\<newline>'') rest
      = renderText (map eliminate (b' # bs))"
    unfolding rest_def using wfs by (intro 3(2)) (simp_all add: atLineStart_def)
  have rt: "renderText (b # b' # bs) = renderBlock b @ CHR ''\<newline>'' # rest"
    by (simp add: renderText_def rest_def)
  have rt': "renderText (map eliminate (b # b' # bs))
      = renderBlock (eliminate b) @ CHR ''\<newline>'' # renderText (map eliminate (b' # bs))"
    by (simp add: renderText_def)
  have "CHR ''\<newline>'' # rest = [] \<or> hd (CHR ''\<newline>'' # rest) = CHR ''\<newline>''"
    by simp
  from scan_block [OF wf 3(4) this] obtain p' where
    sb: "scan redundantAttrRegex redundantReplacer p (renderBlock b @ CHR ''\<newline>'' # rest)
      = renderBlock (eliminate b) @ scan redundantAttrRegex redundantReplacer p' (CHR ''\<newline>'' # rest)"
    by blast
  show ?case
    by (simp only: rt rt' sb scan_newline ih)
qed

lemma eliminate_wellFormed:
  assumes "wellFormed b"
  shows "wellFormed (eliminate b)"
proof (cases b)
  case (Line l)
  then show ?thesis using assms by simp
next
  case (Annotated q)
  show ?thesis
  proof (cases "redundantKey q")
    case True
    have "plainLine (propertyLine q)"
      using assms Annotated by (intro propertyLine_plain) simp
    then show ?thesis
      using True Annotated by simp
  next
    case False
    then show ?thesis
      using assms Annotated by (simp del: wellFormed.simps)
  qed
next
  case (Loose i a k l)
  then show ?thesis using assms by (simp del: wellFormed.simps)
qed

lemma eliminate_idem: "eliminate (eliminate b) = eliminate b"
  by (cases b) auto





text \<open>
  C10. Every match of the redundant-attribute expression, in any text, is an attribute
  line whose key consists of word characters only, followed by the start of a property
  line; the replacement is the whole match or the property line alone. So the only text
  the stage ever deletes is an attribute line with a key over \<open>[A-Za-z0-9_]\<close>: an
  annotation whose key has any other character is never removed.
\<close>

theorem C10_removed_keys_are_words:
  \<open>removeRedundantAttributes code =
      concat (map (seg_out redundantReplacer) (segments redundantAttrRegex None code))
   \<and> list_all (\<lambda>(m, c).
        \<exists>ind a line.
           m = ind @ ''['' @ a @ ''("'' @ grp c 1 @ ''")]\<newline>'' @ line
         \<and> list_all (in_class Blank) ind
         \<and> (a = ''JsonPropertyName'' \<or> a = ''JsonProperty'')
         \<and> grp c 1 \<noteq> [] \<and> list_all isWord (grp c 1)
         \<and> (redundantReplacer m c = m \<or> redundantReplacer m c = line))
       (hits (segments redundantAttrRegex None code))\<close>
proof
  show \<open>removeRedundantAttributes code =
      concat (map (seg_out redundantReplacer) (segments redundantAttrRegex None code))\<close>
    by (simp add: removeRedundantAttributes_def replace_all_def)
next
  show \<open>list_all (\<lambda>(m, c).
        \<exists>ind a line.
           m = ind @ ''['' @ a @ ''("'' @ grp c 1 @ ''")]\<newline>'' @ line
         \<and> list_all (in_class Blank) ind
         \<and> (a = ''JsonPropertyName'' \<or> a = ''JsonProperty'')
         \<and> grp c 1 \<noteq> [] \<and> list_all isWord (grp c 1)
         \<and> (redundantReplacer m c = m \<or> redundantReplacer m c = line))
       (hits (segments redundantAttrRegex None code))\<close>
  proof (rule list_all_hits)
    fix s p c rest
    assume \<open>matcher [Rx redundantAttrRegex] s p Map.empty = Some (c, rest)\<close>
    from redundant_match_shape [OF this] obtain ind a key line name where
      s: \<open>s = ind @ ''['' @ a @ ''("'' @ key @ ''")]\<newline>'' @ line @ rest\<close>
      and ind: \<open>\<forall>x\<in>set ind. in_class Blank x\<close>
      and a: \<open>a = ''JsonPropertyName'' \<or> a = ''JsonProperty''\<close>
      and key: \<open>key \<noteq> []\<close> \<open>\<forall>x\<in>set key. isWord x\<close>
      and c: \<open>c 1 = Some key\<close> \<open>c 2 = Some line\<close> \<open>c 3 = Some name\<close>
      by metis
    let ?m = \<open>ind @ ''['' @ a @ ''("'' @ key @ ''")]\<newline>'' @ line\<close>
    have g: "grp c 1 = key" "grp c 2 = line"
      using c by (simp_all add: grp_def)
    have \<open>redundantReplacer ?m c = ?m \<or> redundantReplacer ?m c = line\<close>
      by (simp add: redundantReplacer_def g Let_def)
    then have \<open>\<exists>ind' a' line'.
           ?m = ind' @ ''['' @ a' @ ''("'' @ grp c 1 @ ''")]\<newline>'' @ line'
         \<and> list_all (in_class Blank) ind'
         \<and> (a' = ''JsonPropertyName'' \<or> a' = ''JsonProperty'')
         \<and> grp c 1 \<noteq> [] \<and> list_all isWord (grp c 1)
         \<and> (redundantReplacer ?m c = ?m \<or> redundantReplacer ?m c = line')\<close>
      using ind a key g
      by (intro exI [of _ ind] exI [of _ a] exI [of _ line]) (simp add: list_all_iff)
    then show \<open>\<exists>m. s = m @ rest \<and> (\<exists>ind a line.
           m = ind @ ''['' @ a @ ''("'' @ grp c 1 @ ''")]\<newline>'' @ line
         \<and> list_all (in_class Blank) ind
         \<and> (a = ''JsonPropertyName'' \<or> a = ''JsonProperty'')
         \<and> grp c 1 \<noteq> [] \<and> list_all isWord (grp c 1)
         \<and> (redundantReplacer m c = m \<or> redundantReplacer m c = line))\<close>
      using s by (intro exI [of _ ?m]) simp
  qed
qed

theorem C10_removed_keys_are_words_witness:
  \<open>hits (segments redundantAttrRegex None
       ''    [JsonPropertyName("id")]\<newline>    public long Id { get; set; }'') \<noteq> []
   \<and> list_all (\<lambda>(m, c).
        \<exists>ind a line.
           m = ind @ ''['' @ a @ ''("'' @ grp c 1 @ ''")]\<newline>'' @ line
         \<and> list_all (in_class Blank) ind
         \<and> (a = ''JsonPropertyName'' \<or> a = ''JsonProperty'')
         \<and> grp c 1 \<noteq> [] \<and> list_all isWord (grp c 1)
         \<and> (redundantReplacer m c = m \<or> redundantReplacer m c = line))
       (hits (segments redundantAttrRegex None
         ''    [JsonPropertyName("id")]\<newline>    public long Id { get; set; }''))
   \<and> removeRedundantAttributes
        ''    [JsonPropertyName("id")]\<newline>    public long Id { get; set; }\<newline>    [JsonPropertyName("user-id")]\<newline>    public long UserId { get; set; }''
     = ''    public long Id { get; set; }\<newline>    [JsonPropertyName("user-id")]\<newline>    public long UserId { get; set; }''\<close>
proof -
  have n: \<open>length (hits (segments redundantAttrRegex None
       ''    [JsonPropertyName("id")]\<newline>    public long Id { get; set; }'')) = 1\<close>
    by code_simp
  have r: \<open>removeRedundantAttributes
        ''    [JsonPropertyName("id")]\<newline>    public long Id { get; set; }\<newline>    [JsonPropertyName("user-id")]\<newline>    public long UserId { get; set; }''
     = ''    public long Id { get; set; }\<newline>    [JsonPropertyName("user-id")]\<newline>    public long UserId { get; set; }''\<close>
    by code_simp
  from n have \<open>hits (segments redundantAttrRegex None
       ''    [JsonPropertyName("id")]\<newline>    public long Id { get; set; }'') \<noteq> []\<close>
    by auto
  then show ?thesis
    using r C10_removed_keys_are_words
      [of \<open>''    [JsonPropertyName("id")]\<newline>    public long Id { get; set; }''\<close>]
    by blast
qed

section \<open>Nullability and defaults\<close>





section \<open>Positional records\<close>

lemma property_match_plain:
  assumes ty: "ty \<noteq> []" "\<forall>x\<in>set ty. \<not> isSpace x"
    and name: "name \<noteq> []" "\<forall>x\<in>set name. isWord x"
    and r: "initFails rest"
  shows \<open>matcher [Rx recordPropertyRegex]
      (''public '' @ ty @ '' '' @ name @ '' { get; set; }'' @ rest) p Map.empty
    = Some ([1 \<mapsto> ty, 2 \<mapsto> name], rest)\<close>
proof -
  have h: "\<not> isSpace (hd ty)" "isWord (hd name)" "\<not> isSpace (hd name)"
    using ty name by (auto simp: hd_all isWord_not_space)
  show ?thesis
    using assms h
    apply (simp add: recordPropertyRegex_def Star_runR Plus_runR Star_stop attrName_run rejects_intros
        isWord_not_space EndGroup_consumed initFails_def del: matcher.simps(2))
    done
qed


lemma member_match:
  assumes wf: "wfMember f" and r: "m_init f = None \<longrightarrow> initFails rest"
  shows \<open>matcher [Rx recordPropertyRegex] (memberDecl f @ memberEnd f @ rest) p Map.empty
    = Some ([1 \<mapsto> m_type f, 2 \<mapsto> m_name f], memberEnd f @ rest)\<close>
proof -
  have ty: "m_type f \<noteq> []" "\<forall>x\<in>set (m_type f). \<not> isSpace x"
    and name: "m_name f \<noteq> []" "\<forall>x\<in>set (m_name f). isWord x"
    using wf by (simp_all add: wfMember_def list_all_iff)
  have h: "\<not> isSpace (hd (m_type f))" "isWord (hd (m_name f))" "\<not> isSpace (hd (m_name f))"
    using ty name by (auto simp: hd_all isWord_not_space)
  show ?thesis
  proof (cases "m_init f")
    case None
    note i = None
    show ?thesis
    proof (cases "m_attr f")
      case None
      then show ?thesis
        using i r ty name h
        by (simp add: memberDecl_def memberAttr_def memberInit_def memberEnd_def
            recordPropertyRegex_def Star_runR Plus_runR Star_stop rejects_intros
            isWord_not_space EndGroup_consumed initFails_def del: matcher.simps(2))
    next
      case (Some ak)
      obtain a key where ak: "ak = (a, key)"
        by (cases ak) auto
      have a: "a = ''JsonPropertyName'' \<or> a = ''JsonProperty''"
        and key: "\<forall>x\<in>set key. in_class NotQuote x"
        using wf Some ak by (simp_all add: wfMember_def list_all_iff)
      show ?thesis
        using i r ty name h Some ak a key
        by (simp add: memberDecl_def memberAttr_def memberInit_def memberEnd_def
            recordPropertyRegex_def Star_runR Plus_runR Star_stop rejects_intros attrName_run
            isWord_not_space EndGroup_consumed initFails_def del: matcher.simps(2))
    qed
  next
    case (Some d)
    note i = Some
    have d: "d \<noteq> []" "\<not> isSpace (hd d)" "\<forall>x\<in>set d. in_class NotSemi x"
      using wf Some by (simp_all add: wfMember_def list_all_iff)
    show ?thesis
    proof (cases "m_attr f")
      case None
      then show ?thesis
        using i d ty name h
        by (simp add: memberDecl_def memberAttr_def memberInit_def memberEnd_def
            recordPropertyRegex_def Star_runR Plus_runR Star_stop rejects_intros Plus_end
            isWord_not_space EndGroup_consumed del: matcher.simps(2))
    next
      case (Some ak)
      obtain a key where ak: "ak = (a, key)"
        by (cases ak) auto
      have a: "a = ''JsonPropertyName'' \<or> a = ''JsonProperty''"
        and key: "\<forall>x\<in>set key. in_class NotQuote x"
        using wf Some ak by (simp_all add: wfMember_def list_all_iff)
      show ?thesis
        using i d ty name h Some ak a key
        by (simp add: memberDecl_def memberAttr_def memberInit_def memberEnd_def
            recordPropertyRegex_def Star_runR Plus_runR Star_stop rejects_intros attrName_run Plus_end
            isWord_not_space EndGroup_consumed del: matcher.simps(2))
    qed
  qed
qed

lemma memberDecl_cases:
  "(\<exists>r. memberDecl f = CHR ''['' # r) \<or> (\<exists>r. memberDecl f = CHR ''p'' # r)"
  by (cases "m_attr f") (auto simp: memberDecl_def memberAttr_def)

lemma initFails_Nil: "initFails []"
  by (simp add: initFails_def)

lemma initFails_member: "initFails (memberText f @ r)"
  using memberDecl_cases [of f]
  by (auto simp: initFails_def memberText_def)

lemma initFails_body: "initFails (classBody fs)"
  by (cases fs) (simp_all add: classBody_def initFails_Nil initFails_member)

lemma property_nomatch_char:
  "x \<noteq> CHR ''['' \<Longrightarrow> x \<noteq> CHR ''p'' \<Longrightarrow> matcher [Rx recordPropertyRegex] (x # s) p c = None"
  by (auto simp: recordPropertyRegex_def)

lemma collect_property_end: "collect recordPropertyRegex p [] = []"
  by (rule collect_Nil) (simp add: recordPropertyRegex_def)

lemma memberDecl_nonempty: "memberDecl f \<noteq> []"
  by (simp add: memberDecl_def)

lemma collect_member:
  assumes wf: "wfMember f" and r: "initFails r"
  shows "\<exists>p'. collect recordPropertyRegex p (memberText f @ r)
    = (memberDecl f, memberCaps f) # collect recordPropertyRegex p' r"
proof -
  let ?R = recordPropertyRegex
  define c :: caps where "c = memberCaps f"
  define s1 where "s1 = memberDecl f @ memberEnd f @ r"
  have lead: "collect ?R q (''\<newline>    '' @ s1) = collect ?R (Some CHR '' '') s1" for q
    by (simp add: collect_skip property_nomatch_char)
  have blank: "collect ?R q (CHR ''\<newline>'' # s) = collect ?R (Some CHR ''\<newline>'') s" for q s
    by (simp add: collect_skip property_nomatch_char)
  have start: "collect ?R p (memberText f @ r) = collect ?R (Some CHR '' '') s1"
    unfolding memberText_def s1_def [symmetric]
    using lead blank by (cases "m_blank f") (simp_all add: s1_def)
  have mt: "matcher [Rx ?R] (memberDecl f @ (memberEnd f @ r)) (Some CHR '' '') Map.empty
      = Some (c, memberEnd f @ r)"
    unfolding c_def memberCaps_def using wf r by (intro member_match) simp_all
  have hit: "collect ?R (Some CHR '' '') s1
      = (memberDecl f, c) # collect ?R (prevAfter (Some CHR '' '') (memberDecl f)) (memberEnd f @ r)"
    unfolding s1_def using mt memberDecl_nonempty by (rule collect_hit)
  have "\<exists>p'. collect ?R q (memberEnd f @ r) = collect ?R p' r" for q
  proof (cases "m_init f")
    case None
    then show ?thesis by (auto simp: memberEnd_def)
  next
    case (Some d)
    then have "collect ?R q (memberEnd f @ r) = collect ?R (Some CHR '';'') r"
      by (simp add: memberEnd_def collect_skip property_nomatch_char)
    then show ?thesis by blast
  qed
  then obtain p' where "collect ?R (prevAfter (Some CHR '' '') (memberDecl f)) (memberEnd f @ r)
      = collect ?R p' r"
    by blast
  then show ?thesis
    using start hit unfolding c_def by metis
qed

lemma collect_body:
  assumes "\<forall>f\<in>set fs. wfMember f"
  shows "collect recordPropertyRegex p (classBody fs)
    = map (\<lambda>f. (memberDecl f, memberCaps f)) fs"
  using assms
proof (induction fs arbitrary: p)
  case Nil
  then show ?case by (simp add: classBody_def collect_property_end)
next
  case (Cons f fs)
  have b: "classBody (f # fs) = memberText f @ classBody fs"
    by (simp add: classBody_def)
  from collect_member [of f "classBody fs" p] Cons.prems obtain p' where
    "collect recordPropertyRegex p (memberText f @ classBody fs)
      = (memberDecl f, memberCaps f) # collect recordPropertyRegex p' (classBody fs)"
    using initFails_body by auto
  then show ?case
    using Cons.IH [of p'] Cons.prems unfolding b by simp
qed

lemma attrName_group_run:
  assumes "a = ''JsonPropertyName'' \<or> a = ''JsonProperty''"
  shows "matcher (Rx attrName # EndGroup n s0 # Rx (seq (Lit (CHR ''('' # w) # r # rs)) # k) (a @ CHR ''('' # t) p c
       = matcher (EndGroup n s0 # Rx (seq (Lit (CHR ''('' # w) # r # rs)) # k) (CHR ''('' # t) (Some (last a)) c"
  using assms by (auto simp: attrName_def EndGroup_consumed split: option.splits simp del: matcher.simps(2))

lemma attr_match:
  assumes a: "a = ''JsonPropertyName'' \<or> a = ''JsonProperty''"
    and key: "\<forall>x\<in>set key. in_class NotQuote x"
  shows \<open>matcher [Rx attrRegex] (''['' @ a @ ''("'' @ key @ ''")]'' @ rest) p Map.empty
    = Some ([1 \<mapsto> a, 2 \<mapsto> key], rest)\<close>
  using assms
  by (simp add: attrRegex_def attrName_group_run Star_runR rejects_intros EndGroup_consumed
      del: matcher.simps(2))

lemma attr_nomatch:
  "\<not> (\<exists>r. s = CHR ''['' # CHR ''J'' # r) \<Longrightarrow> matcher [Rx attrRegex] s p c = None"
  by (cases s; cases "tl s") (auto simp: attrRegex_def attrName_def)

lemma noAttrStart_exec: "noAttrStart s \<Longrightarrow> rx_exec attrRegex p s = None"
proof (induction s arbitrary: p rule: noAttrStart.induct)
  case 1
  then show ?case by (simp add: attr_nomatch)
next
  case (2 x)
  then show ?case by (simp add: attr_nomatch)
next
  case (3 x y s)
  then have "matcher [Rx attrRegex] (x # y # s) p Map.empty = None"
    by (intro attr_nomatch) auto
  then show ?case
    using 3 by simp
qed

lemma noAttrStart_Cons [simp]: "x \<noteq> CHR ''['' \<Longrightarrow> noAttrStart (x # s) = noAttrStart s"
  by (cases s) auto

lemma noAttrStart_append:
  "noAttrStart u \<Longrightarrow> v = [] \<or> hd v \<noteq> CHR ''J'' \<Longrightarrow> noAttrStart v \<Longrightarrow> noAttrStart (u @ v)"
proof (induction u rule: noAttrStart.induct)
  case 1
  then show ?case by simp
next
  case (2 x)
  then show ?case by (cases v) auto
next
  case (3 x y s)
  then show ?case by simp
qed

lemma noAttrStart_word: "\<forall>x\<in>set u. isWord x \<Longrightarrow> noAttrStart u"
proof (induction u)
  case Nil
  then show ?case by simp
next
  case (Cons x u)
  then have "x \<noteq> CHR ''[''"
    by (auto simp: isWord_def)
  then show ?case using Cons by simp
qed

lemma recordParameter_member:
  assumes wf: "wfMember f"
  shows "recordParameter (memberDecl f, memberCaps f) = parameterOf f"
proof (cases "m_attr f")
  case None
  have ty: "noAttrStart (m_type f)" and name: "noAttrStart (m_name f)"
    using wf by (simp_all add: wfMember_def list_all_iff noAttrStart_word)
  have init: "noAttrStart (memberInit f)"
  proof (cases "m_init f")
    case None
    then show ?thesis by (simp add: memberInit_def)
  next
    case (Some d)
    then have "noAttrStart d"
      using wf by (simp add: wfMember_def)
    then show ?thesis
      using Some by (simp add: memberInit_def)
  qed
  have n: "noAttrStart (m_name f @ '' { get; set; }'' @ memberInit f)"
    using name by (rule noAttrStart_append) (simp_all add: init)
  have "noAttrStart (m_type f @ '' '' @ m_name f @ '' { get; set; }'' @ memberInit f)"
  proof (rule noAttrStart_append [OF ty])
    show "'' '' @ m_name f @ '' { get; set; }'' @ memberInit f = []
        \<or> hd ('' '' @ m_name f @ '' { get; set; }'' @ memberInit f) \<noteq> CHR ''J''"
      by simp
    show "noAttrStart ('' '' @ m_name f @ '' { get; set; }'' @ memberInit f)"
      using n by simp
  qed
  then have "noAttrStart (memberDecl f)"
    using None by (simp add: memberDecl_def memberAttr_def)
  then have "rx_exec attrRegex None (memberDecl f) = None"
    by (rule noAttrStart_exec)
  then show ?thesis
    using None by (simp add: recordParameter_def parameterOf_def memberCaps_def grp_def)
next
  case (Some ak)
  obtain a key where ak: "ak = (a, key)"
    by (cases ak) auto
  have a: "a = ''JsonPropertyName'' \<or> a = ''JsonProperty''"
    and key: "\<forall>x\<in>set key. in_class NotQuote x"
    using wf Some ak by (simp_all add: wfMember_def list_all_iff)
  define rest where \<open>rest = ''\<newline>    public '' @ m_type f @ '' '' @ m_name f @ '' { get; set; }'' @ memberInit f\<close>
  have d: \<open>memberDecl f = CHR ''['' # (a @ ''("'' @ key @ ''")]'' @ rest)\<close>
    using Some ak by (simp add: memberDecl_def memberAttr_def rest_def)
  have m: \<open>matcher [Rx attrRegex] (CHR ''['' # (a @ ''("'' @ key @ ''")]'' @ rest)) None Map.empty
      = Some ([1 \<mapsto> a, 2 \<mapsto> key], rest)\<close>
    using attr_match [OF a key, of rest None] by simp
  have "\<exists>n. rx_exec attrRegex None (memberDecl f) = Some (0, n, [1 \<mapsto> a, 2 \<mapsto> key])"
    unfolding d using m by simp
  then show ?thesis
    using Some ak by (auto simp: recordParameter_def parameterOf_def memberCaps_def grp_def)
qed

lemma lazy_indent:
  "matcher (Rx (LazyStar AnyChar) # EndGroup n s0 # Rx (Lit ''\<newline>}'') # k) (''\<newline>    '' @ s) p c
     = matcher (Rx (LazyStar AnyChar) # EndGroup n s0 # Rx (Lit ''\<newline>}'') # k) s (Some CHR '' '') c"
  by simp

lemma lazy_blank:
  "matcher (Rx (LazyStar AnyChar) # EndGroup n s0 # Rx (Lit ''\<newline>}'') # k) (CHR ''\<newline>'' # ''\<newline>    '' @ s) p c
     = matcher (Rx (LazyStar AnyChar) # EndGroup n s0 # Rx (Lit ''\<newline>}'') # k) s (Some CHR '' '') c"
  by simp

lemma attrText_no_newline:
  assumes "wfMember f"
  shows "\<forall>x\<in>set (attrText f). x \<noteq> CHR ''\<newline>''"
proof (cases "m_attr f")
  case None
  then show ?thesis by (simp add: attrText_def)
next
  case (Some ak)
  obtain a key where ak: "ak = (a, key)"
    by (cases ak) auto
  have a: "a = ''JsonPropertyName'' \<or> a = ''JsonProperty''"
    and key: "\<forall>x\<in>set key. x \<noteq> CHR ''\<newline>''"
    using assms Some ak by (simp_all add: wfMember_def list_all_iff)
  have "\<forall>x\<in>set a. x \<noteq> CHR ''\<newline>''"
    using a by (elim disjE) simp_all
  then show ?thesis
    using Some ak key by (simp add: attrText_def ball_Un)
qed

lemma declText_no_newline:
  assumes "wfMember f"
  shows "\<forall>x\<in>set (declText f). x \<noteq> CHR ''\<newline>''"
proof -
  have 1: "\<forall>x\<in>set (m_type f). x \<noteq> CHR ''\<newline>''"
    using assms by (auto simp: wfMember_def list_all_iff)
  have 2: "\<forall>x\<in>set (m_name f). x \<noteq> CHR ''\<newline>''"
    using assms by (auto simp: wfMember_def list_all_iff)
  have 3: "\<forall>x\<in>set (memberInit f). x \<noteq> CHR ''\<newline>''"
    using assms by (cases "m_init f") (auto simp: wfMember_def list_all_iff memberInit_def)
  have 4: "\<forall>x\<in>set (memberEnd f). x \<noteq> CHR ''\<newline>''"
    by (cases "m_init f") (auto simp: memberEnd_def)
  show ?thesis
    unfolding declText_def using 1 2 3 4 by (simp add: ball_Un)
qed

lemma memberText_split:
  "memberText f = (if m_blank f then ''\<newline>'' else []) @ ''\<newline>    ''
     @ (case m_attr f of None \<Rightarrow> [] | Some ak \<Rightarrow> attrText f @ ''\<newline>    '') @ declText f"
  by (cases "m_attr f")
    (auto simp: memberText_def memberDecl_def memberAttr_def attrText_def declText_def)

lemma lazy_member:
  assumes wf: "wfMember f"
  shows "\<exists>p'. matcher (Rx (LazyStar AnyChar) # EndGroup n s0 # Rx (Lit ''\<newline>}'') # k) (memberText f @ s) p c
     = matcher (Rx (LazyStar AnyChar) # EndGroup n s0 # Rx (Lit ''\<newline>}'') # k) s p' c"
proof -
  let ?K = \<open>Rx (LazyStar AnyChar) # EndGroup n s0 # Rx (Lit ''\<newline>}'') # k\<close>
  have lead: "matcher ?K ((if m_blank f then ''\<newline>'' else []) @ ''\<newline>    '' @ t) p c
      = matcher ?K t (Some CHR '' '') c" for t
    using lazy_indent [of n s0 k t p c] lazy_blank [of n s0 k t p c] by (cases "m_blank f") simp_all
  have decl: "matcher ?K (declText f @ s) q c = matcher ?K s (prevAfter q (declText f)) c" for q
    using declText_no_newline [OF wf] by (rule lazy_run)
  have attr: "\<exists>q'. matcher ?K ((case m_attr f of None \<Rightarrow> [] | Some ak \<Rightarrow> attrText f @ ''\<newline>    '') @ t) q c
      = matcher ?K t q' c" for q t
  proof (cases "m_attr f")
    case None
    then show ?thesis by auto
  next
    case (Some ak)
    have "matcher ?K (attrText f @ (''\<newline>    '' @ t)) q c
        = matcher ?K (''\<newline>    '' @ t) (prevAfter q (attrText f)) c"
      using attrText_no_newline [OF wf] by (rule lazy_run)
    also have "\<dots> = matcher ?K t (Some CHR '' '') c"
      by (rule lazy_indent)
    finally show ?thesis
      using Some by auto
  qed
  obtain q' where q': "matcher ?K ((case m_attr f of None \<Rightarrow> [] | Some ak \<Rightarrow> attrText f @ ''\<newline>    '')
        @ (declText f @ s)) (Some CHR '' '') c = matcher ?K (declText f @ s) q' c"
    using attr by blast
  have "matcher ?K (memberText f @ s) p c
      = matcher ?K ((if m_blank f then ''\<newline>'' else []) @ ''\<newline>    ''
          @ ((case m_attr f of None \<Rightarrow> [] | Some ak \<Rightarrow> attrText f @ ''\<newline>    '') @ (declText f @ s))) p c"
    by (simp only: memberText_split append_assoc)
  also have "\<dots> = matcher ?K ((case m_attr f of None \<Rightarrow> [] | Some ak \<Rightarrow> attrText f @ ''\<newline>    '')
        @ (declText f @ s)) (Some CHR '' '') c"
    by (rule lead)
  also have "\<dots> = matcher ?K (declText f @ s) q' c"
    by (rule q')
  also have "\<dots> = matcher ?K s (prevAfter q' (declText f)) c"
    by (rule decl)
  finally show ?thesis
    by blast
qed

lemma lazy_body:
  assumes "\<forall>f\<in>set fs. wfMember f"
  shows "\<exists>p'. matcher (Rx (LazyStar AnyChar) # EndGroup n s0 # Rx (Lit ''\<newline>}'') # k) (classBody fs @ s) p c
     = matcher (Rx (LazyStar AnyChar) # EndGroup n s0 # Rx (Lit ''\<newline>}'') # k) s p' c"
  using assms
proof (induction fs arbitrary: p)
  case Nil
  then show ?case by (auto simp: classBody_def)
next
  case (Cons f fs)
  let ?K = \<open>Rx (LazyStar AnyChar) # EndGroup n s0 # Rx (Lit ''\<newline>}'') # k\<close>
  have wf: "wfMember f" and wfs: "\<forall>f\<in>set fs. wfMember f"
    using Cons.prems by simp_all
  from lazy_member [OF wf, of n s0 k "classBody fs @ s" p c] obtain p1 where
    1: "matcher ?K (memberText f @ (classBody fs @ s)) p c = matcher ?K (classBody fs @ s) p1 c"
    by blast
  from Cons.IH [OF wfs, of p1] obtain p2 where
    2: "matcher ?K (classBody fs @ s) p1 c = matcher ?K s p2 c"
    by blast
  have "classBody (f # fs) @ s = memberText f @ (classBody fs @ s)"
    by (simp add: classBody_def)
  then show ?case
    using 1 2 by auto
qed

lemma class_match:
  assumes cn: "cn \<noteq> []" "\<forall>x\<in>set cn. isWord x" and wf: "\<forall>f\<in>set fs. wfMember f"
  shows \<open>matcher [Rx classRegex] (renderClass cn fs @ rest) p Map.empty
    = Some ([1 \<mapsto> cn, 2 \<mapsto> classBody fs], rest)\<close>
proof -
  define s0 where \<open>s0 = classBody fs @ ''\<newline>}'' @ rest\<close>
  let ?K = \<open>Rx (LazyStar AnyChar) # EndGroup 2 s0 # Rx (Lit ''\<newline>}'') # []\<close>
  have h: "isWord (hd cn)" "\<not> isSpace (hd cn)"
    using cn by (auto simp: hd_all isWord_not_space)
  from lazy_body [OF wf, of 2 s0 "[]" \<open>''\<newline>}'' @ rest\<close> "Some CHR ''{''" "[1 \<mapsto> cn]"]
  obtain p' where 2: \<open>matcher ?K s0 (Some CHR ''{'') [1 \<mapsto> cn]
      = matcher ?K (''\<newline>}'' @ rest) p' [1 \<mapsto> cn]\<close>
    unfolding s0_def by blast
  have 3: \<open>matcher ?K (''\<newline>}'' @ rest) p' [1 \<mapsto> cn]
      = Some ([1 \<mapsto> cn, 2 \<mapsto> consumed s0 (''\<newline>}'' @ rest)], rest)\<close>
    by (simp add: EndGroup_consumed del: matcher.simps(2))
  have 4: \<open>consumed s0 (''\<newline>}'' @ rest) = classBody fs\<close>
    unfolding s0_def by (subst consumed_append) simp_all
  have L: \<open>matcher ?K s0 (Some CHR ''{'') [1 \<mapsto> cn]
      = Some ([1 \<mapsto> cn, 2 \<mapsto> classBody fs], rest)\<close>
    using 2 3 4 by simp
  have 1: \<open>matcher [Rx classRegex] (''public class '' @ cn @ ''\<newline>{'' @ s0) p Map.empty
      = Some ([1 \<mapsto> cn, 2 \<mapsto> classBody fs], rest)\<close>
    using cn h L
    by (simp add: classRegex_def Plus_runR Star_stop rejects_intros isWord_not_space
        EndGroup_consumed del: matcher.simps(2))
  have \<open>renderClass cn fs @ rest = ''public class '' @ cn @ ''\<newline>{'' @ s0\<close>
    by (simp add: renderClass_def s0_def)
  then show ?thesis
    using 1 by simp
qed

lemma class_nomatch_end: "matcher [Rx classRegex] [] p Map.empty = None"
  by (simp add: classRegex_def)

lemma recordParameters_body:
  assumes "\<forall>f\<in>set fs. wfMember f"
  shows "recordParameters (classBody fs) = map parameterOf fs"
proof -
  have "hits (segments recordPropertyRegex None (classBody fs))
      = map (\<lambda>f. (memberDecl f, memberCaps f)) fs"
    using collect_body [OF assms, of None] by (simp add: collect_def)
  then have "recordParameters (classBody fs)
      = map (\<lambda>f. recordParameter (memberDecl f, memberCaps f)) fs"
    by (simp add: recordParameters_def comp_def)
  also have "\<dots> = map parameterOf fs"
    using assms by (intro map_cong) (simp_all add: recordParameter_member)
  finally show ?thesis .
qed



end
